theory Spec2Isabelle
  imports Main
begin

section \<open>ReliableHttpStream (lib/httpstream.js): data model\<close>

text \<open>
  The stream object of \<^verbatim>\<open>lib/httpstream.js\<close> is a record of its \<^verbatim>\<open>rs_*\<close> fields.
  Its methods and the closures it hands to its collaborators (the restify client, the
  request, the response body, the retry operation) are functions from state to state.
  Everything the object does to the outside is appended to a log kept in the state:
  \<^item> \<open>out_notes\<close>: what the consumer is told, \<^verbatim>\<open>push(buf)\<close>, \<^verbatim>\<open>push(null)\<close> and
    \<^verbatim>\<open>emit('error', err)\<close>, in order;
  \<^item> \<open>out_requests\<close>: the options of every \<^verbatim>\<open>rs_client.get\<close>;
  \<^item> \<open>out_cleanups\<close>: \<^verbatim>\<open>rs_request.abort()\<close> and \<^verbatim>\<open>rs_response.destroy()\<close>.
  The callbacks the object has registered with its collaborators and that have not
  fired yet are the \<open>cb_*\<close> fields; \<open>src_ended\<close> says that the current response body
  has emitted \<^verbatim>\<open>'end'\<close>. An uncaught exception (a failed
  \<^verbatim>\<open>mod_assert\<close>, a method call on \<^verbatim>\<open>null\<close>, a hash used after \<^verbatim>\<open>digest\<close>) sets
  \<open>thrown\<close>; nothing runs after it. Two calls are taken to return: \<^verbatim>\<open>emit('error', err)\<close>
  (the consumer has an \<^verbatim>\<open>'error'\<close> listener; without one the emitter throws \<^verbatim>\<open>err\<close>) and
  \<^verbatim>\<open>new mod_retry.operation(policy)\<close> (the policy has \<^verbatim>\<open>minTimeout\<close> at most
  \<^verbatim>\<open>maxTimeout\<close>; the retry module throws on any other). Left out: the logger, the client object and
  \<^verbatim>\<open>rs_nresumes\<close> (never read), the type checks of the constructor's arguments, and the
  wrapping of a pre-0.10 response (\<^verbatim>\<open>rs_source\<close> is the response either way). A call
  made last in a method (\<^verbatim>\<open>push\<close>, which may call \<^verbatim>\<open>_read\<close> back) is the next event.
\<close>

type_synonym buffer = "char list"

text \<open>An error object of the HTTP client: \<^verbatim>\<open>statusCode\<close> is undefined or a number.\<close>

record http_error =
  statusCode :: "int option"
  err_name :: string

datatype stream_error =
    Upstream http_error
  | EtagMismatch
  | Md5Mismatch string string

text \<open>A response: its identity as an object and the three headers the stream reads.\<close>

record response =
  res_id :: nat
  hdr_content_md5 :: "string option"
  hdr_content_length :: "string option"
  hdr_etag :: "string option"

record retry_policy =
  retries :: nat
  minTimeout :: nat
  maxTimeout :: nat

text \<open>
  The retry operation of the \<^verbatim>\<open>retry\<close> module (a dependency, not part of the
  repository), as far as the stream uses it: an operation holds one timeout per allowed
  retry; \<^verbatim>\<open>attempt(f)\<close> calls \<open>f\<close> at once; \<^verbatim>\<open>retry(err)\<close> takes the next timeout,
  answers whether there was one, and if so \<open>f\<close> runs again when the timer fires.
\<close>

record retry_operation =
  op_timeouts :: nat

definition operation :: "retry_policy \<Rightarrow> retry_operation" where
  "operation p = \<lparr>op_timeouts = retries p\<rparr>"

definition retry :: "retry_operation \<Rightarrow> bool \<times> retry_operation" where
  "retry op =
     (if op_timeouts op = 0 then (False, op)
      else (True, op\<lparr>op_timeouts := op_timeouts op - 1\<rparr>))"

text \<open>
  The md5 hash object: the bytes it was fed, and whether \<^verbatim>\<open>digest\<close> was called (a Node
  hash throws when it is used after that). The digest itself is a parameter \<open>dg\<close> of
  the functions that need it.
\<close>

record hash =
  fed :: buffer
  finalized :: bool

record rqoptions =
  rq_path :: string
  rq_retry :: retry_policy
  rq_range :: "string option"

datatype notification = Data buffer | End | Error stream_error

datatype cleanup = RequestAbort | ResponseDestroy

record stream =
  rs_path :: string
  rs_nbytesread :: nat
  rs_md5 :: hash
  rs_request :: "nat option"
  rs_response :: "response option"
  rs_source :: "response option"
  rs_aborted :: bool
  rs_request_pending :: bool
  rs_error :: "stream_error option"
  rs_reading :: bool
  rs_retrypolicy :: retry_policy
  rs_retry :: "retry_operation option"
  rs_exp_md5 :: "string option"
  rs_exp_len :: "int option"
  rs_exp_etag :: "string option"
  cb_get :: nat
  cb_result :: nat
  cb_timer :: nat
  cb_end :: "response list"
  cb_readable :: nat
  src_ended :: bool
  out_notes :: "notification list"
  out_requests :: "rqoptions list"
  out_cleanups :: "cleanup list"
  thrown :: bool

definition default_policy :: retry_policy where
  "default_policy = \<lparr>retries = 3, minTimeout = 1000, maxTimeout = 10000\<rparr>"

text \<open>The constructor: \<^verbatim>\<open>args['retryPolicy'] || { retries: 3, ... }\<close>.\<close>

definition ReliableHttpStream :: "string \<Rightarrow> retry_policy option \<Rightarrow> stream" where
  "ReliableHttpStream path retryPolicy =
     \<lparr>rs_path = path,
      rs_nbytesread = 0,
      rs_md5 = \<lparr>fed = [], finalized = False\<rparr>,
      rs_request = None,
      rs_response = None,
      rs_source = None,
      rs_aborted = False,
      rs_request_pending = False,
      rs_error = None,
      rs_reading = False,
      rs_retrypolicy = (case retryPolicy of None \<Rightarrow> default_policy | Some p \<Rightarrow> p),
      rs_retry = None,
      rs_exp_md5 = None,
      rs_exp_len = None,
      rs_exp_etag = None,
      cb_get = 0,
      cb_result = 0,
      cb_timer = 0,
      cb_end = [],
      cb_readable = 0,
      src_ended = False,
      out_notes = [],
      out_requests = [],
      out_cleanups = [],
      thrown = False\<rparr>"

section \<open>JavaScript conversions the stream relies on\<close>

text \<open>\<^verbatim>\<open>'bytes=' + n + '-'\<close>: a non-negative integer printed in decimal.\<close>

definition digit_char :: "nat \<Rightarrow> char" where
  "digit_char d = char_of (48 + d)"

fun string_of_nat :: "nat \<Rightarrow> string" where
  "string_of_nat n =
     (if n < 10 then [digit_char n]
      else string_of_nat (n div 10) @ [digit_char (n mod 10)])"

declare string_of_nat.simps [simp del]

text \<open>
  \<^verbatim>\<open>parseInt(s, 10)\<close>: leading white space is skipped, a sign is read, then the longest
  run of decimal digits; no digit at all is NaN (\<open>None\<close>). Only ASCII white space is
  modelled, and the number is exact (no rounding to a double).
\<close>

definition is_space :: "char \<Rightarrow> bool" where
  "is_space c = (of_char c \<in> {9, 10, 11, 12, 13, 32 :: nat})"

definition is_digit :: "char \<Rightarrow> bool" where
  "is_digit c = (48 \<le> (of_char c :: nat) \<and> (of_char c :: nat) \<le> 57)"

definition digits_value :: "string \<Rightarrow> nat" where
  "digits_value ds = foldl (\<lambda>acc c. 10 * acc + (of_char c - 48)) 0 ds"

definition parseInt10 :: "string \<Rightarrow> int option" where
  "parseInt10 s =
     (let t = dropWhile is_space s;
          neg = (case t of c # _ \<Rightarrow> c = CHR ''-'' | [] \<Rightarrow> False);
          u = (case t of c # r \<Rightarrow> if c = CHR ''-'' \<or> c = CHR ''+'' then r else t | [] \<Rightarrow> t);
          ds = takeWhile is_digit u
      in if ds = [] then None
         else Some (if neg then - int (digits_value ds) else int (digits_value ds)))"

text \<open>\<^verbatim>\<open>parseInt(res.headers['content-length'], 10) || 0\<close>: NaN and 0 give 0.\<close>

definition content_length_or_0 :: "string option \<Rightarrow> int" where
  "content_length_or_0 h =
     (case h of None \<Rightarrow> 0
      | Some s \<Rightarrow> (case parseInt10 s of None \<Rightarrow> 0 | Some n \<Rightarrow> n))"

text \<open>\<^verbatim>\<open>res.headers[h] || null\<close>: a missing header and the empty string give null.\<close>

definition or_null :: "string option \<Rightarrow> string option" where
  "or_null h = (case h of None \<Rightarrow> None | Some s \<Rightarrow> if s = [] then None else Some s)"

section \<open>The methods\<close>

definition throw :: "stream \<Rightarrow> stream" where
  "throw s = s\<lparr>thrown := True\<rparr>"

definition stopAndCleanUp :: "stream \<Rightarrow> stream" where
  "stopAndCleanUp s =
     (if rs_error s = None \<and> \<not> rs_aborted s then throw s
      else
        let s1 = (if rs_request s \<noteq> None
                  then s\<lparr>out_cleanups := out_cleanups s @ [RequestAbort]\<rparr> else s)
        in if rs_response s1 \<noteq> None
           then s1\<lparr>out_cleanups := out_cleanups s1 @ [ResponseDestroy]\<rparr> else s1)"

definition internalError :: "stream_error \<Rightarrow> stream \<Rightarrow> stream" where
  "internalError err s =
     stopAndCleanUp (s\<lparr>rs_error := Some err, out_notes := out_notes s @ [Error err]\<rparr>)"

text \<open>
  \<open>pump rd\<close>: \<open>rd\<close> is what \<^verbatim>\<open>source.read()\<close> returns in this call (\<open>None\<close> for null).
\<close>

definition pump :: "buffer option \<Rightarrow> stream \<Rightarrow> stream" where
  "pump rd s =
     (case rs_source s of
        None \<Rightarrow> throw s
      | Some source \<Rightarrow>
          (case rd of
             None \<Rightarrow> s\<lparr>cb_readable := cb_readable s + 1\<rparr>
           | Some buf \<Rightarrow>
               let s1 = s\<lparr>rs_nbytesread := rs_nbytesread s + length buf\<rparr>
               in if finalized (rs_md5 s1) then throw s1
                  else s1\<lparr>rs_md5 := (rs_md5 s1)\<lparr>fed := fed (rs_md5 s1) @ buf\<rparr>,
                          rs_reading := False,
                          out_notes := out_notes s1 @ [Data buf]\<rparr>))"

definition range_header :: "nat \<Rightarrow> string option" where
  "range_header n = (if n > 0 then Some (''bytes='' @ string_of_nat n @ ''-'') else None)"

definition makeRequest :: "stream \<Rightarrow> stream" where
  "makeRequest s =
     (if rs_request_pending s then throw s
      else if rs_aborted s then s\<lparr>rs_reading := False\<rparr>
      else s\<lparr>rs_request_pending := True,
             out_requests := out_requests s @
               [\<lparr>rq_path = rs_path s, rq_retry = rs_retrypolicy s,
                 rq_range = range_header (rs_nbytesread s)\<rparr>],
             cb_get := cb_get s + 1\<rparr>)"

text \<open>
  \<^verbatim>\<open>_read\<close>. \<^verbatim>\<open>rs_retry.attempt(f)\<close> calls \<open>f\<close> at once, so \<open>makeRequest\<close> runs inside.
\<close>

definition rs_read :: "buffer option \<Rightarrow> stream \<Rightarrow> stream" where
  "rs_read rd s =
     (if rs_aborted s then s
      else if rs_error s \<noteq> None then s
      else if rs_reading s then s
      else
        let s1 = s\<lparr>rs_reading := True\<rparr>
        in if rs_response s1 \<noteq> None then pump rd s1
           else if rs_request_pending s1 then s1
           else makeRequest (s1\<lparr>rs_retry := Some (operation (rs_retrypolicy s1))\<rparr>))"

text \<open>The callback given to \<^verbatim>\<open>rs_client.get\<close>.\<close>

definition get_callback :: "http_error option \<Rightarrow> nat \<Rightarrow> stream \<Rightarrow> stream" where
  "get_callback err req s =
     (case err of
        Some e \<Rightarrow> internalError (Upstream e) (s\<lparr>rs_reading := False\<rparr>)
      | None \<Rightarrow>
          let s1 = s\<lparr>rs_request := Some req, rs_request_pending := False\<rparr>
          in if rs_aborted s1 then stopAndCleanUp s1
             else s1\<lparr>cb_result := cb_result s1 + 1\<rparr>)"

definition retryable :: "http_error \<Rightarrow> bool" where
  "retryable e = (case statusCode e of None \<Rightarrow> True | Some c \<Rightarrow> c \<ge> 500)"

text \<open>The listener of the request's \<^verbatim>\<open>'result'\<close> event.\<close>

definition on_result :: "http_error + response \<Rightarrow> buffer option \<Rightarrow> stream \<Rightarrow> stream" where
  "on_result r rd s =
     (case r of
        Inl err2 \<Rightarrow>
          if retryable err2 then
            (case rs_retry s of
               None \<Rightarrow> throw s
             | Some op \<Rightarrow>
                 if fst (retry op)
                 then s\<lparr>rs_retry := Some (snd (retry op)),
                        cb_timer := cb_timer s + 1,
                        rs_request := None\<rparr>
                 else internalError (Upstream err2)
                        (s\<lparr>rs_retry := Some (snd (retry op)), rs_reading := False\<rparr>))
          else internalError (Upstream err2) (s\<lparr>rs_reading := False\<rparr>)
      | Inr res \<Rightarrow>
          let s1 = s\<lparr>rs_response := Some res, rs_source := Some res\<rparr>
          in if rs_exp_etag s1 \<noteq> None \<and> rs_exp_etag s1 \<noteq> hdr_etag res
             then internalError EtagMismatch (s1\<lparr>rs_reading := False\<rparr>)
             else
               let s2 = (if rs_exp_len s1 = None
                         then s1\<lparr>rs_exp_md5 := or_null (hdr_content_md5 res),
                                 rs_exp_len := Some (content_length_or_0 (hdr_content_length res)),
                                 rs_exp_etag := or_null (hdr_etag res)\<rparr>
                         else s1);
                   s3 = s2\<lparr>cb_end := cb_end s2 @ [res]\<rparr>
               in pump rd s3)"

text \<open>
  \<^verbatim>\<open>this.rs_exp_len > this.rs_nbytesread\<close>: a null \<^verbatim>\<open>rs_exp_len\<close> compares as 0.
  The \<^verbatim>\<open>_read()\<close> that \<^verbatim>\<open>responseEnd\<close> calls finds \<^verbatim>\<open>rs_response\<close> null, so it reads
  nothing from a body: its argument is \<open>None\<close>.
\<close>

definition exp_len_num :: "stream \<Rightarrow> int" where
  "exp_len_num s = (case rs_exp_len s of None \<Rightarrow> 0 | Some l \<Rightarrow> l)"

definition responseEnd :: "(buffer \<Rightarrow> string) \<Rightarrow> stream \<Rightarrow> stream" where
  "responseEnd dg s =
     (if exp_len_num s > int (rs_nbytesread s) then
        (case rs_source s of
           None \<Rightarrow> throw s
         | Some source \<Rightarrow>
             rs_read None
               (s\<lparr>cb_readable := 0,
                  rs_request := None,
                  rs_response := None,
                  rs_source := None,
                  rs_reading := False\<rparr>))
      else if finalized (rs_md5 s) then throw s
      else
        let calcmd5 = dg (fed (rs_md5 s));
            s1 = s\<lparr>rs_md5 := (rs_md5 s)\<lparr>finalized := True\<rparr>\<rparr>
        in (case rs_exp_md5 s1 of
              Some m \<Rightarrow>
                if m \<noteq> calcmd5 then internalError (Md5Mismatch m calcmd5) s1
                else s1\<lparr>out_notes := out_notes s1 @ [End]\<rparr>
            | None \<Rightarrow> s1\<lparr>out_notes := out_notes s1 @ [End]\<rparr>))"

definition abort :: "stream \<Rightarrow> stream" where
  "abort s = (if rs_aborted s then s else stopAndCleanUp (s\<lparr>rs_aborted := True\<rparr>))"

section \<open>Events\<close>

text \<open>
  What can happen to a stream: the Readable base class calls \<^verbatim>\<open>_read\<close>, a collaborator
  calls back, or the user calls \<^verbatim>\<open>abort\<close>. An event that reads the response body carries
  the result of that \<^verbatim>\<open>source.read()\<close>. A callback fires only while it is registered,
  and once per registration: the \<^verbatim>\<open>get\<close> callback once per call, \<^verbatim>\<open>'result'\<close> once per
  request, \<^verbatim>\<open>'end'\<close> once per response, the timer and a \<^verbatim>\<open>once('readable')\<close> listener
  once. All \<^verbatim>\<open>once('readable')\<close> listeners fire on one event; the first read drains the
  buffer. A body that has emitted \<^verbatim>\<open>'end'\<close> returns null from every later \<^verbatim>\<open>read()\<close>.
\<close>

datatype event =
    EvRead "buffer option"
  | EvGet "http_error option" nat
  | EvResult "http_error + response" "buffer option"
  | EvTimer
  | EvReadable "buffer option"
  | EvEnd
  | EvAbort

primrec pump_all :: "nat \<Rightarrow> buffer option \<Rightarrow> stream \<Rightarrow> stream" where
  "pump_all 0 rd s = s"
| "pump_all (Suc n) rd s = (if thrown s then s else pump_all n None (pump rd s))"

text \<open>The \<^verbatim>\<open>'end'\<close> listener: \<^verbatim>\<open>mod_assert.ok(s.rs_response === res); s.responseEnd()\<close>.\<close>

definition on_end :: "(buffer \<Rightarrow> string) \<Rightarrow> response \<Rightarrow> stream \<Rightarrow> stream" where
  "on_end dg res s = (if rs_response s = Some res then responseEnd dg s else throw s)"

definition read_result :: "stream \<Rightarrow> buffer option \<Rightarrow> buffer option" where
  "read_result s rd = (if src_ended s then None else rd)"

definition step :: "(buffer \<Rightarrow> string) \<Rightarrow> event \<Rightarrow> stream \<Rightarrow> stream" where
  "step dg ev s =
     (if thrown s then s
      else case ev of
        EvRead rd \<Rightarrow> rs_read (read_result s rd) s
      | EvGet err req \<Rightarrow>
          if cb_get s = 0 then s else get_callback err req (s\<lparr>cb_get := cb_get s - 1\<rparr>)
      | EvResult r rd \<Rightarrow>
          if cb_result s = 0 then s
          else on_result r rd (s\<lparr>cb_result := cb_result s - 1, src_ended := False\<rparr>)
      | EvTimer \<Rightarrow>
          if cb_timer s = 0 then s else makeRequest (s\<lparr>cb_timer := cb_timer s - 1\<rparr>)
      | EvReadable rd \<Rightarrow>
          pump_all (cb_readable s) (read_result s rd) (s\<lparr>cb_readable := 0\<rparr>)
      | EvEnd \<Rightarrow>
          (case cb_end s of
             [] \<Rightarrow> s
           | res # rest \<Rightarrow> on_end dg res (s\<lparr>cb_end := rest, src_ended := True\<rparr>))
      | EvAbort \<Rightarrow> abort s)"

fun run :: "(buffer \<Rightarrow> string) \<Rightarrow> stream \<Rightarrow> event list \<Rightarrow> stream" where
  "run dg s [] = s"
| "run dg s (ev # evs) = run dg (step dg ev s) evs"

text \<open>The options \<^verbatim>\<open>makeRequest\<close> builds in state \<open>s\<close>.\<close>

definition request_at :: "stream \<Rightarrow> rqoptions" where
  "request_at s = \<lparr>rq_path = rs_path s, rq_retry = rs_retrypolicy s,
                    rq_range = range_header (rs_nbytesread s)\<rparr>"

section \<open>What a run of a stream is measured by\<close>

fun is_terminal :: "notification \<Rightarrow> bool" where
  "is_terminal (Data b) = False"
| "is_terminal End = True"
| "is_terminal (Error e) = True"

fun payload :: "notification \<Rightarrow> buffer" where
  "payload (Data b) = b"
| "payload End = []"
| "payload (Error e) = []"

text \<open>The number of terminal notifications so far, and the bytes handed to the consumer.\<close>

definition terminals :: "stream \<Rightarrow> nat" where
  "terminals s = length (filter is_terminal (out_notes s))"

definition delivered :: "stream \<Rightarrow> buffer" where
  "delivered s = concat (map payload (out_notes s))"

text \<open>The callbacks a stream is waiting for, other than \<^verbatim>\<open>'readable'\<close>.\<close>

definition outstanding :: "stream \<Rightarrow> nat" where
  "outstanding s = cb_get s + cb_result s + cb_timer s + length (cb_end s)"

text \<open>What is captured from the first response, and what the constructor fixes.\<close>

definition metadata :: "stream \<Rightarrow> int option \<times> string option \<times> string option" where
  "metadata s = (rs_exp_len s, rs_exp_md5 s, rs_exp_etag s)"

definition config :: "stream \<Rightarrow> string \<times> retry_policy" where
  "config s = (rs_path s, rs_retrypolicy s)"

section \<open>The phases of a session\<close>

text \<open>
  The source keeps its state in flags; the states of the session are the combinations of
  flags and registered callbacks that can occur. \<open>inv\<close> says that a stream is in one
  of them; it holds of a new stream and every event preserves it.
\<close>

definition core :: "stream \<Rightarrow> bool" where
  "core s \<longleftrightarrow>
     \<not> thrown s \<and> rs_source s = rs_response s \<and>
     fed (rs_md5 s) = delivered s \<and> rs_nbytesread s = length (delivered s) \<and>
     (rs_exp_len s \<noteq> None \<or> rs_exp_etag s = None \<and> rs_exp_md5 s = None)"

definition awaiting :: "stream \<Rightarrow> bool" where
  "awaiting s \<longleftrightarrow>
     core s \<and> cb_end s = [] \<and> rs_response s = None \<and> rs_retry s \<noteq> None \<and>
     cb_readable s = 0 \<and> rs_reading s \<and> terminals s = 0 \<and> rs_error s = None \<and>
     \<not> finalized (rs_md5 s)"

definition connecting :: "stream \<Rightarrow> bool" where
  "connecting s \<longleftrightarrow>
     awaiting s \<and> cb_get s = 1 \<and> cb_result s = 0 \<and> cb_timer s = 0 \<and> rs_request_pending s"

definition awaiting_result :: "stream \<Rightarrow> bool" where
  "awaiting_result s \<longleftrightarrow>
     awaiting s \<and> cb_get s = 0 \<and> cb_result s = 1 \<and> cb_timer s = 0 \<and>
     \<not> rs_request_pending s"

definition backing_off :: "stream \<Rightarrow> bool" where
  "backing_off s \<longleftrightarrow>
     awaiting s \<and> cb_get s = 0 \<and> cb_result s = 0 \<and> cb_timer s = 1 \<and>
     \<not> rs_request_pending s"

definition streaming :: "stream \<Rightarrow> bool" where
  "streaming s \<longleftrightarrow>
     core s \<and> cb_get s = 0 \<and> cb_result s = 0 \<and> cb_timer s = 0 \<and>
     rs_response s \<noteq> None \<and> cb_end s = [the (rs_response s)] \<and>
     terminals s = 0 \<and> rs_error s = None \<and> \<not> finalized (rs_md5 s) \<and>
     \<not> rs_request_pending s \<and> \<not> src_ended s \<and> rs_exp_len s \<noteq> None"

definition idle :: "stream \<Rightarrow> bool" where
  "idle s \<longleftrightarrow>
     core s \<and> cb_get s = 0 \<and> cb_result s = 0 \<and> cb_timer s = 0 \<and> cb_end s = [] \<and>
     cb_readable s = 0 \<and> rs_response s = None \<and> terminals s = 0 \<and> rs_error s = None \<and>
     \<not> finalized (rs_md5 s) \<and> \<not> rs_request_pending s \<and>
     (rs_aborted s \<or> \<not> rs_reading s \<and> out_requests s = [])"

definition finished :: "stream \<Rightarrow> bool" where
  "finished s \<longleftrightarrow>
     core s \<and> cb_get s = 0 \<and> cb_result s = 0 \<and> cb_timer s = 0 \<and> cb_end s = [] \<and>
     terminals s = 1 \<and>
     (rs_error s \<noteq> None \<or> finalized (rs_md5 s)) \<and>
     (cb_readable s = 0 \<or> rs_response s \<noteq> None) \<and>
     (\<not> finalized (rs_md5 s) \<or> src_ended s \<and> rs_response s \<noteq> None)"

definition inv :: "stream \<Rightarrow> bool" where
  "inv s \<longleftrightarrow>
     connecting s \<or> awaiting_result s \<or> backing_off s \<or> streaming s \<or> idle s \<or> finished s"

section \<open>Sample values\<close>

definition demo_digest :: "buffer \<Rightarrow> string" where
  "demo_digest b = ''md5:'' @ b"

definition demo_response :: "nat \<Rightarrow> string option \<Rightarrow> string \<Rightarrow> string \<Rightarrow> response" where
  "demo_response i md5 len etag =
     \<lparr>res_id = i, hdr_content_md5 = md5, hdr_content_length = Some len, hdr_etag = Some etag\<rparr>"

text \<open>A session with one retry allowed, a 503 from the server and a short response.\<close>

definition one_retry :: retry_policy where
  "one_retry = \<lparr>retries = 1, minTimeout = 500, maxTimeout = 2000\<rparr>"

definition error_503 :: http_error where
  "error_503 = \<lparr>statusCode = Some 503, err_name = ''ServiceUnavailableError''\<rparr>"

definition error_400 :: http_error where
  "error_400 = \<lparr>statusCode = Some 400, err_name = ''BadRequestError''\<rparr>"

definition after_503_and_short_response :: stream where
  "after_503_and_short_response =
     run demo_digest (ReliableHttpStream ''/r'' (Some one_retry))
       [EvRead None, EvGet None 0, EvResult (Inl error_503) None, EvTimer, EvGet None 1,
        EvResult (Inr (demo_response 0 None ''5'' ''v1'')) (Some ''ab'')]"

definition after_503 :: stream where
  "after_503 =
     run demo_digest (ReliableHttpStream ''/r'' (Some one_retry))
       [EvRead None, EvGet None 0, EvResult (Inl error_503) None, EvTimer, EvGet None 1]"

definition after_first_part :: stream where
  "after_first_part =
     run demo_digest (ReliableHttpStream ''/r'' None)
       [EvRead None, EvGet None 0,
        EvResult (Inr (demo_response 0 None ''5'' ''v1'')) (Some ''ab''), EvEnd, EvGet None 1]"

definition after_first_part_no_etag :: stream where
  "after_first_part_no_etag =
     run demo_digest (ReliableHttpStream ''/r'' None)
       [EvRead None, EvGet None 0,
        EvResult (Inr \<lparr>res_id = 0, hdr_content_md5 = None, hdr_content_length = Some ''5'',
                       hdr_etag = None\<rparr>) (Some ''ab''), EvEnd, EvGet None 1]"

definition before_bad_md5_end :: stream where
  "before_bad_md5_end =
     run demo_digest (ReliableHttpStream ''/r'' None)
       [EvRead None, EvGet None 0,
        EvResult (Inr (demo_response 0 (Some ''deadbeef'') ''5'' ''v1'')) (Some ''abcde'')]"

text \<open>A server that closes every response before any byte of the 5 it declares.\<close>

definition closes_early :: "event list" where
  "closes_early =
     [EvGet None 0, EvResult (Inr (demo_response 0 None ''5'' ''v1'')) None, EvEnd]"

definition after_one_early_close :: stream where
  "after_one_early_close =
     run demo_digest (ReliableHttpStream ''/r'' None) (EvRead None # closes_early)"

section \<open>A resource served in segments\<close>

text \<open>
  A segment is one connection: the response the server sends and the chunks the body
  hands out before the connection closes. A chunk is the bytes of one read, with a flag
  that says whether they come late: then the read that asks for them returns null and
  the body signals \<^verbatim>\<open>'readable'\<close> when they are there. The events of a segment are the
  \<^verbatim>\<open>get\<close> callback, the \<^verbatim>\<open>'result'\<close> event (the stream reads the first chunk in it), a
  demand signal for each further chunk, one that finds nothing, and \<^verbatim>\<open>'end'\<close>. A session
  is the first demand signal and then the segments: after a short segment the stream
  asks again by itself.
\<close>

type_synonym chunk = "bool \<times> buffer"

type_synonym segment = "response \<times> chunk list"

fun chunk_events :: "chunk \<Rightarrow> event list" where
  "chunk_events (late, b) =
     (if late then [EvRead None, EvReadable (Some b)] else [EvRead (Some b)])"

fun segment_body :: "segment \<Rightarrow> event list" where
  "segment_body (res, []) = [EvResult (Inr res) None]"
| "segment_body (res, (late, b) # cs) =
     (if late then [EvResult (Inr res) None, EvReadable (Some b)]
      else [EvResult (Inr res) (Some b)]) @
     concat (map chunk_events cs) @ [EvRead None]"

definition segment_events :: "segment \<Rightarrow> event list" where
  "segment_events sg = EvGet None 0 # segment_body sg @ [EvEnd]"

definition session_events :: "segment list \<Rightarrow> event list" where
  "session_events segs = EvRead None # concat (map segment_events segs)"

definition segment_bytes :: "segment \<Rightarrow> buffer" where
  "segment_bytes sg = concat (map snd (snd sg))"

definition resource_of :: "segment list \<Rightarrow> buffer" where
  "resource_of segs = concat (map segment_bytes segs)"

text \<open>The offsets at which the later segments are asked for, counted from \<open>n\<close>.\<close>

fun resume_offsets :: "nat \<Rightarrow> segment list \<Rightarrow> nat list" where
  "resume_offsets n [] = []"
| "resume_offsets n [sg] = []"
| "resume_offsets n (sg # sg' # segs) =
     (n + length (segment_bytes sg)) #
     resume_offsets (n + length (segment_bytes sg)) (sg' # segs)"

text \<open>What the stream has captured once it has accepted \<open>res\<close> in state \<open>s\<close>.\<close>

definition expected :: "stream \<Rightarrow> response \<Rightarrow> int option \<times> string option \<times> string option" where
  "expected s res =
     (if rs_exp_len s = None
      then (Some (content_length_or_0 (hdr_content_length res)),
            or_null (hdr_content_md5 res), or_null (hdr_etag res))
      else metadata s)"

text \<open>\<open>s'\<close> is \<open>s\<close> some events later: notifications \<open>ns\<close> were added, nothing was asked.\<close>

definition advanced :: "stream \<Rightarrow> notification list \<Rightarrow> stream \<Rightarrow> bool" where
  "advanced s ns s' \<longleftrightarrow>
     out_notes s' = out_notes s @ ns \<and> out_requests s' = out_requests s \<and>
     rs_aborted s' = rs_aborted s"

definition demo_segments :: "segment list" where
  "demo_segments =
     [(demo_response 0 (Some ''md5:abcde'') ''5'' ''v1'', [(False, ''ab'')]),
      (demo_response 1 None ''3'' ''v1'', []),
      (demo_response 2 None ''3'' ''v1'', [(True, ''c''), (False, ''d''), (True, ''e'')])]"

section \<open>Decimal numbers\<close>

lemma run_append: "run dg s (xs @ ys) = run dg (run dg s xs) ys"
  by (induction xs arbitrary: s) simp_all

lemma of_char_digit_char: "d < 10 \<Longrightarrow> (of_char (digit_char d) :: nat) = 48 + d"
  by (simp add: digit_char_def)

lemma is_digit_digit_char: "d < 10 \<Longrightarrow> is_digit (digit_char d)"
  by (simp add: is_digit_def of_char_digit_char)

lemma not_space_digit: "is_digit c \<Longrightarrow> \<not> is_space c"
  by (auto simp add: is_digit_def is_space_def)

lemma not_sign_digit: "is_digit c \<Longrightarrow> c \<noteq> CHR ''-'' \<and> c \<noteq> CHR ''+''"
  by (auto simp add: is_digit_def)

lemma string_of_nat_digits: "list_all is_digit (string_of_nat n) \<and> string_of_nat n \<noteq> []"
proof (induction n rule: string_of_nat.induct)
  case (1 n)
  show ?case
  proof (cases "n < 10")
    case True
    then show ?thesis by (simp add: string_of_nat.simps [of n] is_digit_digit_char)
  next
    case False
    with 1 show ?thesis by (simp add: string_of_nat.simps [of n] is_digit_digit_char)
  qed
qed

lemma digits_value_snoc: "digits_value (ds @ [c]) = 10 * digits_value ds + (of_char c - 48)"
  by (simp add: digits_value_def)

lemma digits_value_string_of_nat: "digits_value (string_of_nat n) = n"
proof (induction n rule: string_of_nat.induct)
  case (1 n)
  show ?case
  proof (cases "n < 10")
    case True
    then show ?thesis by (simp add: string_of_nat.simps [of n] digits_value_def of_char_digit_char)
  next
    case False
    with 1 show ?thesis
      by (simp add: string_of_nat.simps [of n] digits_value_snoc of_char_digit_char)
  qed
qed

lemma takeWhile_all: "list_all P xs \<Longrightarrow> takeWhile P xs = xs"
  by (induction xs) simp_all

text \<open>Reading back what \<open>string_of_nat\<close> prints gives the number: it is the decimal form.\<close>

lemma parseInt10_string_of_nat: "parseInt10 (string_of_nat n) = Some (int n)"
proof -
  obtain c cs where cs: "string_of_nat n = c # cs"
    using string_of_nat_digits [of n] by (cases "string_of_nat n") auto
  have all: "list_all is_digit (c # cs)"
    using string_of_nat_digits [of n] cs by simp
  then have c: "is_digit c" by simp
  have "dropWhile is_space (c # cs) = c # cs"
    using not_space_digit [OF c] by simp
  moreover have "takeWhile is_digit (c # cs) = c # cs"
    using takeWhile_all [OF all] .
  moreover have "digits_value (c # cs) = n"
    using digits_value_string_of_nat [of n] cs by simp
  ultimately show ?thesis
    using not_sign_digit [OF c] cs by (simp add: parseInt10_def Let_def)
qed

lemma content_length_decimal: "content_length_or_0 (Some (string_of_nat n)) = int n"
  by (simp add: content_length_or_0_def parseInt10_string_of_nat)

section \<open>Requests\<close>

lemma pump_requests:
  "out_requests (pump rd s) = out_requests s"
  by (simp add: pump_def throw_def Let_def split: option.splits)

lemma pump_all_requests: "out_requests (pump_all n rd s) = out_requests s"
  by (induction n arbitrary: rd s) (simp_all add: pump_requests)

lemma stopAndCleanUp_requests: "out_requests (stopAndCleanUp s) = out_requests s"
  by (simp add: stopAndCleanUp_def throw_def Let_def)

lemma stopAndCleanUp_nbytesread: "rs_nbytesread (stopAndCleanUp s) = rs_nbytesread s"
  by (simp add: stopAndCleanUp_def throw_def Let_def)

lemma internalError_requests: "out_requests (internalError e s) = out_requests s"
  by (simp add: internalError_def stopAndCleanUp_requests)

lemma internalError_nbytesread: "rs_nbytesread (internalError e s) = rs_nbytesread s"
  by (simp add: internalError_def stopAndCleanUp_nbytesread)

lemma makeRequest_requests:
  "out_requests (makeRequest s) = out_requests s \<or>
   out_requests (makeRequest s) = out_requests s @ [request_at s]"
  by (simp add: makeRequest_def throw_def request_at_def)

lemma makeRequest_nbytesread: "rs_nbytesread (makeRequest s) = rs_nbytesread s"
  by (simp add: makeRequest_def throw_def)

lemma rs_read_requests:
  "out_requests (rs_read rd s) = out_requests s \<or>
   out_requests (rs_read rd s) = out_requests s @ [request_at s] \<and>
   rs_nbytesread (rs_read rd s) = rs_nbytesread s"
  using makeRequest_requests
    [of "s\<lparr>rs_reading := True, rs_retry := Some (operation (rs_retrypolicy s))\<rparr>"]
  by (auto simp add: rs_read_def Let_def pump_requests request_at_def makeRequest_nbytesread)

lemma get_callback_requests: "out_requests (get_callback e r s) = out_requests s"
  by (simp add: get_callback_def internalError_requests stopAndCleanUp_requests Let_def
      split: option.splits)

lemma on_result_requests: "out_requests (on_result r rd s) = out_requests s"
  by (simp add: on_result_def internalError_requests pump_requests throw_def Let_def
      split: option.splits sum.splits)

lemma responseEnd_requests:
  "out_requests (responseEnd dg s) = out_requests s \<or>
   out_requests (responseEnd dg s) = out_requests s @ [request_at s] \<and>
   rs_nbytesread (responseEnd dg s) = rs_nbytesread s"
  using rs_read_requests
    [of None "s\<lparr>cb_readable := 0, rs_request := None, rs_response := None,
                rs_source := None, rs_reading := False\<rparr>"]
  by (auto simp add: responseEnd_def internalError_requests throw_def Let_def request_at_def
      split: option.splits)

lemma abort_requests: "out_requests (abort s) = out_requests s"
  by (simp add: abort_def stopAndCleanUp_requests)

lemma step_requests:
  "out_requests (step dg ev s) = out_requests s \<or>
   out_requests (step dg ev s) = out_requests s @ [request_at s] \<and>
   rs_nbytesread (step dg ev s) = rs_nbytesread s"
proof (cases ev)
  case (EvRead rd)
  then show ?thesis using rs_read_requests [of "read_result s rd" s] by (simp add: step_def)
next
  case (EvGet e r)
  then show ?thesis by (simp add: step_def get_callback_requests)
next
  case (EvResult r rd)
  then show ?thesis by (simp add: step_def on_result_requests)
next
  case EvTimer
  then show ?thesis using makeRequest_requests [of "s\<lparr>cb_timer := cb_timer s - 1\<rparr>"]
    by (auto simp add: step_def request_at_def makeRequest_nbytesread)
next
  case (EvReadable rd)
  then show ?thesis by (simp add: step_def pump_all_requests)
next
  case EvEnd
  then show ?thesis
  proof (cases "cb_end s")
    case Nil
    with EvEnd show ?thesis by (simp add: step_def)
  next
    case (Cons r rest)
    with EvEnd show ?thesis
      using responseEnd_requests [of dg "s\<lparr>cb_end := rest, src_ended := True\<rparr>"]
      by (auto simp add: step_def on_end_def throw_def request_at_def)
  qed
next
  case EvAbort
  then show ?thesis by (simp add: step_def abort_requests)
qed

text \<open>
  C3. Whatever happens to a stream, it issues at most one request, and that request is
  the one \<open>makeRequest\<close> builds from the state: it carries no \<^verbatim>\<open>range\<close> header when
  \<open>rs_nbytesread\<close> is 0 and the header \<^verbatim>\<open>bytes=N-\<close> otherwise, where \<open>N\<close> is
  \<open>rs_nbytesread\<close> in decimal, and \<open>rs_nbytesread\<close> is the same before and after the
  event that issued it.
\<close>

theorem request_range_is_bytes_consumed:
  "(out_requests (step dg ev s) = out_requests s \<or>
    out_requests (step dg ev s) =
      out_requests s @
        [\<lparr>rq_path = rs_path s, rq_retry = rs_retrypolicy s,
          rq_range = range_header (rs_nbytesread s)\<rparr>] \<and>
    rs_nbytesread (step dg ev s) = rs_nbytesread s) \<and>
   range_header 0 = None \<and>
   range_header (Suc n) = Some (''bytes='' @ string_of_nat (Suc n) @ ''-'') \<and>
   parseInt10 (string_of_nat (Suc n)) = Some (int (Suc n))"
  using step_requests [of dg ev s]
  by (simp add: request_at_def range_header_def parseInt10_string_of_nat)

section \<open>Every event keeps a stream in one of its phases\<close>

lemma inv_init: "inv (ReliableHttpStream p pol)"
  by (simp add: inv_def idle_def core_def ReliableHttpStream_def terminals_def delivered_def)

lemmas phase_defs = connecting_def awaiting_result_def backing_off_def streaming_def idle_def
  finished_def awaiting_def core_def terminals_def delivered_def

lemma abort_connecting: "connecting s \<Longrightarrow> connecting (abort s)"
  by (auto simp add: phase_defs abort_def stopAndCleanUp_def throw_def Let_def)

lemma abort_awaiting_result: "awaiting_result s \<Longrightarrow> awaiting_result (abort s)"
  by (auto simp add: phase_defs abort_def stopAndCleanUp_def throw_def Let_def)

lemma abort_backing_off: "backing_off s \<Longrightarrow> backing_off (abort s)"
  by (auto simp add: phase_defs abort_def stopAndCleanUp_def throw_def Let_def)

lemma abort_streaming: "streaming s \<Longrightarrow> streaming (abort s)"
  by (auto simp add: phase_defs abort_def stopAndCleanUp_def throw_def Let_def)

lemma abort_idle: "idle s \<Longrightarrow> idle (abort s)"
  by (auto simp add: phase_defs abort_def stopAndCleanUp_def throw_def Let_def)

lemma abort_finished: "finished s \<Longrightarrow> finished (abort s)"
  by (auto simp add: phase_defs abort_def stopAndCleanUp_def throw_def Let_def)

lemma inv_abort: "inv s \<Longrightarrow> inv (abort s)"
  unfolding inv_def
  using abort_connecting abort_awaiting_result abort_backing_off abort_streaming abort_idle abort_finished
  by blast

lemma step_EvGet_noop: "cb_get s = 0 \<Longrightarrow> step dg (EvGet e r) s = s"
  by (simp add: step_def)

lemma step_EvResult_noop: "cb_result s = 0 \<Longrightarrow> step dg (EvResult r rd) s = s"
  by (simp add: step_def)

lemma step_EvTimer_noop: "cb_timer s = 0 \<Longrightarrow> step dg EvTimer s = s"
  by (simp add: step_def)

lemma step_EvEnd_noop: "cb_end s = [] \<Longrightarrow> step dg EvEnd s = s"
  by (simp add: step_def)

lemma step_EvReadable_noop: "cb_readable s = 0 \<Longrightarrow> step dg (EvReadable rd) s = s"
proof -
  assume a: "cb_readable s = 0"
  have "s\<lparr>cb_readable := 0\<rparr> = s\<lparr>cb_readable := cb_readable s\<rparr>" using a by simp
  then show ?thesis using a by (simp add: step_def)
qed

lemma rs_read_noop: "rs_reading s \<or> rs_aborted s \<or> rs_error s \<noteq> None \<Longrightarrow> rs_read rd s = s"
  by (auto simp add: rs_read_def)

lemma step_EvRead_noop:
  "rs_reading s \<or> rs_aborted s \<or> rs_error s \<noteq> None \<Longrightarrow> step dg (EvRead rd) s = s"
  by (simp add: step_def rs_read_noop)

lemma thrown_noop: "thrown s \<Longrightarrow> step dg ev s = s"
  by (simp add: step_def)

lemma pump_streaming:
  "streaming s \<Longrightarrow> streaming (pump rd s)"
  by (auto simp add: phase_defs pump_def throw_def Let_def split: option.splits)

lemma pump_all_streaming:
  "streaming s \<Longrightarrow> streaming (pump_all n rd s)"
  by (induction n arbitrary: rd s) (simp_all add: pump_streaming)

lemma pump_finished:
  "finished s \<Longrightarrow> rs_response s \<noteq> None \<Longrightarrow> (finalized (rs_md5 s) \<Longrightarrow> rd = None) \<Longrightarrow>
   finished (pump rd s) \<and> rs_response (pump rd s) \<noteq> None \<and>
   finalized (rs_md5 (pump rd s)) = finalized (rs_md5 s)"
  by (auto simp add: phase_defs pump_def throw_def Let_def split: option.splits)

lemma pump_all_finished:
  "finished s \<Longrightarrow> rs_response s \<noteq> None \<Longrightarrow> (finalized (rs_md5 s) \<Longrightarrow> rd = None) \<Longrightarrow>
   finished (pump_all n rd s)"
proof (induction n arbitrary: rd s)
  case 0
  then show ?case by simp
next
  case (Suc n)
  have "\<not> thrown s" using Suc.prems(1) by (simp add: finished_def core_def)
  moreover have "finished (pump_all n None (pump rd s))"
    using pump_finished [OF Suc.prems] by (intro Suc.IH) simp_all
  ultimately show ?case by simp
qed

lemma not_thrown: "inv s \<Longrightarrow> \<not> thrown s"
  by (auto simp add: inv_def phase_defs)

lemma streaming_response:
  assumes "streaming s"
  obtains r where "rs_response s = Some r" "cb_end s = [r]" "rs_source s = Some r"
  using assms by (auto simp add: streaming_def core_def)

lemma get_error_connecting:
  "connecting s \<Longrightarrow> finished (step dg (EvGet (Some e) req) s)"
  by (simp add: phase_defs step_def get_callback_def internalError_def stopAndCleanUp_def
      throw_def Let_def)

lemma get_ok_connecting_aborted:
  "connecting s \<Longrightarrow> rs_aborted s \<Longrightarrow> idle (step dg (EvGet None req) s)"
  by (simp add: phase_defs step_def get_callback_def stopAndCleanUp_def throw_def Let_def)

lemma get_ok_connecting:
  "connecting s \<Longrightarrow> \<not> rs_aborted s \<Longrightarrow> awaiting_result (step dg (EvGet None req) s)"
  by (simp add: phase_defs step_def get_callback_def Let_def)

lemma result_retry:
  "awaiting_result s \<Longrightarrow> retryable e \<Longrightarrow> rs_retry s = Some op \<Longrightarrow> op_timeouts op > 0 \<Longrightarrow>
   backing_off (step dg (EvResult (Inl e) rd) s)"
  by (simp add: phase_defs step_def on_result_def retry_def Let_def)

lemma result_exhausted:
  "awaiting_result s \<Longrightarrow> retryable e \<Longrightarrow> rs_retry s = Some op \<Longrightarrow> op_timeouts op = 0 \<Longrightarrow>
   finished (step dg (EvResult (Inl e) rd) s)"
  by (simp add: phase_defs step_def on_result_def retry_def internalError_def stopAndCleanUp_def
      throw_def Let_def)

lemma result_fatal:
  "awaiting_result s \<Longrightarrow> \<not> retryable e \<Longrightarrow> finished (step dg (EvResult (Inl e) rd) s)"
  by (simp add: phase_defs step_def on_result_def internalError_def stopAndCleanUp_def
      throw_def Let_def)

lemma result_awaiting_error:
  "awaiting_result s \<Longrightarrow>
   backing_off (step dg (EvResult (Inl e) rd) s) \<or> finished (step dg (EvResult (Inl e) rd) s)"
proof -
  assume a: "awaiting_result s"
  then obtain op where op: "rs_retry s = Some op"
    by (auto simp add: awaiting_result_def awaiting_def)
  show ?thesis
    using result_retry [OF a _ op] result_exhausted [OF a _ op] result_fatal [OF a]
    by (cases "retryable e"; cases "op_timeouts op = 0") auto
qed

lemma result_etag_mismatch:
  "awaiting_result s \<Longrightarrow> rs_exp_etag s \<noteq> None \<Longrightarrow> rs_exp_etag s \<noteq> hdr_etag res \<Longrightarrow>
   finished (step dg (EvResult (Inr res) rd) s)"
  by (simp add: phase_defs step_def on_result_def internalError_def stopAndCleanUp_def
      throw_def Let_def)

lemma result_accepted_wait:
  "awaiting_result s \<Longrightarrow> rs_exp_etag s = None \<or> rs_exp_etag s = hdr_etag res \<Longrightarrow>
   streaming (step dg (EvResult (Inr res) None) s)"
  by (auto simp add: phase_defs step_def on_result_def pump_def Let_def)

lemma result_accepted_data:
  "awaiting_result s \<Longrightarrow> rs_exp_etag s = None \<or> rs_exp_etag s = hdr_etag res \<Longrightarrow>
   streaming (step dg (EvResult (Inr res) (Some buf)) s)"
  by (auto simp add: phase_defs step_def on_result_def pump_def Let_def)

lemma result_awaiting_response:
  "awaiting_result s \<Longrightarrow>
   streaming (step dg (EvResult (Inr res) rd) s) \<or> finished (step dg (EvResult (Inr res) rd) s)"
proof -
  assume a: "awaiting_result s"
  show ?thesis
  proof (cases "rs_exp_etag s \<noteq> None \<and> rs_exp_etag s \<noteq> hdr_etag res")
    case True
    then show ?thesis using result_etag_mismatch [OF a, of res dg rd] by simp
  next
    case False
    then have ok: "rs_exp_etag s = None \<or> rs_exp_etag s = hdr_etag res" by blast
    show ?thesis
      using result_accepted_wait [OF a ok, of dg] result_accepted_data [OF a ok, of dg]
      by (cases rd) simp_all
  qed
qed

lemma timer_aborted: "backing_off s \<Longrightarrow> rs_aborted s \<Longrightarrow> idle (step dg EvTimer s)"
  by (simp add: phase_defs step_def makeRequest_def)

lemma timer_live: "backing_off s \<Longrightarrow> \<not> rs_aborted s \<Longrightarrow> connecting (step dg EvTimer s)"
  by (simp add: phase_defs step_def makeRequest_def)

lemma read_idle_live: "idle s \<Longrightarrow> \<not> rs_aborted s \<Longrightarrow> connecting (step dg (EvRead rd) s)"
  by (simp add: phase_defs step_def rs_read_def makeRequest_def Let_def)

lemma read_streaming: "streaming s \<Longrightarrow> streaming (step dg (EvRead rd) s)"
proof -
  assume s: "streaming s"
  show ?thesis
  proof (cases "rs_reading s \<or> rs_aborted s \<or> rs_error s \<noteq> None")
    case True
    then show ?thesis using s by (simp add: step_EvRead_noop)
  next
    case False
    have r: "streaming (s\<lparr>rs_reading := True\<rparr>)" using s by (simp add: phase_defs)
    have "step dg (EvRead rd) s = pump (read_result s rd) (s\<lparr>rs_reading := True\<rparr>)"
      using False s by (simp add: step_def rs_read_def Let_def streaming_def core_def)
    then show ?thesis using pump_streaming [OF r] by simp
  qed
qed

lemma read_finished: "finished s \<Longrightarrow> finished (step dg (EvRead rd) s)"
proof -
  assume s: "finished s"
  show ?thesis
  proof (cases "rs_reading s \<or> rs_aborted s \<or> rs_error s \<noteq> None")
    case True
    then show ?thesis using s by (simp add: step_EvRead_noop)
  next
    case False
    have r: "finished (s\<lparr>rs_reading := True\<rparr>)" using s by (simp add: phase_defs)
    have f: "finalized (rs_md5 s) \<and> src_ended s \<and> rs_response s \<noteq> None"
      using False s by (auto simp add: finished_def)
    have "step dg (EvRead rd) s = pump None (s\<lparr>rs_reading := True\<rparr>)"
      using False s f by (simp add: step_def rs_read_def Let_def finished_def core_def read_result_def)
    then show ?thesis using pump_finished [OF r, of None] f by simp
  qed
qed

lemma readable_streaming: "streaming s \<Longrightarrow> streaming (step dg (EvReadable rd) s)"
proof -
  assume s: "streaming s"
  have r: "streaming (s\<lparr>cb_readable := 0\<rparr>)" using s by (simp add: phase_defs)
  have "step dg (EvReadable rd) s = pump_all (cb_readable s) (read_result s rd) (s\<lparr>cb_readable := 0\<rparr>)"
    using s by (simp add: step_def streaming_def core_def)
  then show ?thesis using pump_all_streaming [OF r] by simp
qed

lemma readable_finished: "finished s \<Longrightarrow> finished (step dg (EvReadable rd) s)"
proof (cases "cb_readable s = 0")
  case True
  assume "finished s"
  then show ?thesis using True by (simp add: step_EvReadable_noop)
next
  case False
  assume s: "finished s"
  have r: "finished (s\<lparr>cb_readable := 0\<rparr>)" using s by (simp add: phase_defs)
  have p: "rs_response (s\<lparr>cb_readable := 0\<rparr>) \<noteq> None" using s False by (simp add: finished_def)
  have q: "finalized (rs_md5 (s\<lparr>cb_readable := 0\<rparr>)) \<Longrightarrow> read_result s rd = None"
    using s by (auto simp add: finished_def read_result_def)
  have "step dg (EvReadable rd) s = pump_all (cb_readable s) (read_result s rd) (s\<lparr>cb_readable := 0\<rparr>)"
    using s by (simp add: step_def finished_def core_def)
  then show ?thesis using pump_all_finished [OF r p q] by simp
qed

lemma end_premature_aborted:
  assumes "streaming s" "exp_len_num s > int (rs_nbytesread s)" "rs_aborted s"
  shows "idle (step dg EvEnd s)"
proof -
  obtain r where "rs_response s = Some r" "cb_end s = [r]" "rs_source s = Some r"
    using assms(1) by (rule streaming_response)
  then show ?thesis using assms
    by (simp add: phase_defs step_def on_end_def responseEnd_def rs_read_def exp_len_num_def)
qed

lemma end_premature_live:
  assumes "streaming s" "exp_len_num s > int (rs_nbytesread s)" "\<not> rs_aborted s"
  shows "connecting (step dg EvEnd s)"
proof -
  obtain r where "rs_response s = Some r" "cb_end s = [r]" "rs_source s = Some r"
    using assms(1) by (rule streaming_response)
  then show ?thesis using assms
    by (simp add: phase_defs step_def on_end_def responseEnd_def rs_read_def makeRequest_def
        exp_len_num_def Let_def)
qed

lemma end_complete:
  assumes "streaming s" "\<not> exp_len_num s > int (rs_nbytesread s)"
  shows "finished (step dg EvEnd s)"
proof -
  obtain r where "rs_response s = Some r" "cb_end s = [r]" "rs_source s = Some r"
    using assms(1) by (rule streaming_response)
  then show ?thesis using assms
    by (simp add: phase_defs step_def on_end_def responseEnd_def internalError_def
        stopAndCleanUp_def throw_def exp_len_num_def Let_def split: option.splits)
qed

lemma end_streaming:
  "streaming s \<Longrightarrow>
   connecting (step dg EvEnd s) \<or> idle (step dg EvEnd s) \<or> finished (step dg EvEnd s)"
  using end_premature_aborted [of s dg] end_premature_live [of s dg] end_complete [of s dg]
  by blast

lemma awaiting_reading: "awaiting s \<Longrightarrow> rs_reading s"
  by (simp add: awaiting_def)

lemma inv_step: "inv s \<Longrightarrow> inv (step dg ev s)"
proof -
  assume invs: "inv s"
  consider (c) "connecting s" | (a) "awaiting_result s" | (b) "backing_off s"
    | (s) "streaming s" | (i) "idle s" | (f) "finished s"
    using invs unfolding inv_def by blast
  then show ?thesis
  proof cases
    case c
    then have r: "rs_reading s" by (simp add: connecting_def awaiting_def)
    from c have z: "cb_result s = 0" "cb_timer s = 0" "cb_end s = []" "cb_readable s = 0"
      by (simp_all add: connecting_def awaiting_def)
    show ?thesis
    proof (cases ev)
      case (EvGet err req)
      then show ?thesis
        using get_error_connecting [OF c, where dg=dg and req=req]
          get_ok_connecting_aborted [OF c, where dg=dg and req=req]
          get_ok_connecting [OF c, where dg=dg and req=req]
        by (cases err; cases "rs_aborted s") (auto simp add: inv_def)
    next
      case EvAbort
      then show ?thesis using abort_connecting [OF c] c
        by (simp add: inv_def step_def connecting_def awaiting_def core_def)
    qed (use c r z in \<open>simp_all add: inv_def step_EvRead_noop step_EvResult_noop
          step_EvTimer_noop step_EvEnd_noop step_EvReadable_noop\<close>)
  next
    case a
    then have r: "rs_reading s" by (simp add: awaiting_result_def awaiting_def)
    from a have z: "cb_get s = 0" "cb_timer s = 0" "cb_end s = []" "cb_readable s = 0"
      by (simp_all add: awaiting_result_def awaiting_def)
    show ?thesis
    proof (cases ev)
      case (EvResult x rd)
      then show ?thesis
        using result_awaiting_error [OF a, where dg=dg and rd=rd] result_awaiting_response [OF a, where dg=dg and rd=rd]
        by (cases x) (auto simp add: inv_def)
    next
      case EvAbort
      then show ?thesis using abort_awaiting_result [OF a] a
        by (simp add: inv_def step_def awaiting_result_def awaiting_def core_def)
    qed (use a r z in \<open>simp_all add: inv_def step_EvRead_noop step_EvGet_noop
          step_EvTimer_noop step_EvEnd_noop step_EvReadable_noop\<close>)
  next
    case b
    then have r: "rs_reading s" by (simp add: backing_off_def awaiting_def)
    from b have z: "cb_get s = 0" "cb_result s = 0" "cb_end s = []" "cb_readable s = 0"
      by (simp_all add: backing_off_def awaiting_def)
    show ?thesis
    proof (cases ev)
      case EvTimer
      then show ?thesis using timer_aborted [OF b, where dg=dg] timer_live [OF b, where dg=dg]
        by (cases "rs_aborted s") (auto simp add: inv_def)
    next
      case EvAbort
      then show ?thesis using abort_backing_off [OF b] b
        by (simp add: inv_def step_def backing_off_def awaiting_def core_def)
    qed (use b r z in \<open>simp_all add: inv_def step_EvRead_noop step_EvGet_noop
          step_EvResult_noop step_EvEnd_noop step_EvReadable_noop\<close>)
  next
    case s
    from s have z: "cb_get s = 0" "cb_result s = 0" "cb_timer s = 0"
      by (simp_all add: streaming_def)
    show ?thesis
    proof (cases ev)
      case (EvRead rd)
      then show ?thesis using read_streaming [OF s] by (simp add: inv_def)
    next
      case (EvReadable rd)
      then show ?thesis using readable_streaming [OF s] by (simp add: inv_def)
    next
      case EvEnd
      then show ?thesis using end_streaming [OF s, where dg=dg] by (auto simp add: inv_def)
    next
      case EvAbort
      then show ?thesis using abort_streaming [OF s] s
        by (simp add: inv_def step_def streaming_def core_def)
    qed (use s z in \<open>simp_all add: inv_def step_EvGet_noop step_EvResult_noop step_EvTimer_noop\<close>)
  next
    case i
    from i have z: "cb_get s = 0" "cb_result s = 0" "cb_timer s = 0" "cb_end s = []"
        "cb_readable s = 0"
      by (simp_all add: idle_def)
    show ?thesis
    proof (cases ev)
      case (EvRead rd)
      then show ?thesis using read_idle_live [OF i, where dg=dg and rd=rd] i
        by (cases "rs_aborted s") (auto simp add: inv_def step_EvRead_noop)
    next
      case EvAbort
      then show ?thesis using abort_idle [OF i] i
        by (simp add: inv_def step_def idle_def core_def)
    qed (use i z in \<open>simp_all add: inv_def step_EvGet_noop step_EvResult_noop step_EvTimer_noop
          step_EvEnd_noop step_EvReadable_noop\<close>)
  next
    case f
    from f have z: "cb_get s = 0" "cb_result s = 0" "cb_timer s = 0" "cb_end s = []"
      by (simp_all add: finished_def)
    show ?thesis
    proof (cases ev)
      case (EvRead rd)
      then show ?thesis using read_finished [OF f] by (simp add: inv_def)
    next
      case (EvReadable rd)
      then show ?thesis using readable_finished [OF f] by (simp add: inv_def)
    next
      case EvAbort
      then show ?thesis using abort_finished [OF f] f
        by (simp add: inv_def step_def finished_def core_def)
    qed (use f z in \<open>simp_all add: inv_def step_EvGet_noop step_EvResult_noop step_EvTimer_noop
          step_EvEnd_noop\<close>)
  qed
qed

lemma inv_run: "inv s \<Longrightarrow> inv (run dg s evs)"
  by (induction evs arbitrary: s) (simp_all add: inv_step)

section \<open>What no event changes\<close>

lemma metadata_update:
  "metadata (s\<lparr>rs_path := x0\<rparr>) = metadata s"
  "metadata (s\<lparr>rs_nbytesread := x1\<rparr>) = metadata s"
  "metadata (s\<lparr>rs_md5 := x2\<rparr>) = metadata s"
  "metadata (s\<lparr>rs_request := x3\<rparr>) = metadata s"
  "metadata (s\<lparr>rs_response := x4\<rparr>) = metadata s"
  "metadata (s\<lparr>rs_source := x5\<rparr>) = metadata s"
  "metadata (s\<lparr>rs_aborted := x6\<rparr>) = metadata s"
  "metadata (s\<lparr>rs_request_pending := x7\<rparr>) = metadata s"
  "metadata (s\<lparr>rs_error := x8\<rparr>) = metadata s"
  "metadata (s\<lparr>rs_reading := x9\<rparr>) = metadata s"
  "metadata (s\<lparr>rs_retrypolicy := x10\<rparr>) = metadata s"
  "metadata (s\<lparr>rs_retry := x11\<rparr>) = metadata s"
  "metadata (s\<lparr>cb_get := x12\<rparr>) = metadata s"
  "metadata (s\<lparr>cb_result := x13\<rparr>) = metadata s"
  "metadata (s\<lparr>cb_timer := x14\<rparr>) = metadata s"
  "metadata (s\<lparr>cb_end := x15\<rparr>) = metadata s"
  "metadata (s\<lparr>cb_readable := x16\<rparr>) = metadata s"
  "metadata (s\<lparr>src_ended := x17\<rparr>) = metadata s"
  "metadata (s\<lparr>out_notes := x18\<rparr>) = metadata s"
  "metadata (s\<lparr>out_requests := x19\<rparr>) = metadata s"
  "metadata (s\<lparr>out_cleanups := x20\<rparr>) = metadata s"
  "metadata (s\<lparr>thrown := x21\<rparr>) = metadata s"
  by (simp_all add: metadata_def)

lemma config_update:
  "config (s\<lparr>rs_nbytesread := x0\<rparr>) = config s"
  "config (s\<lparr>rs_md5 := x1\<rparr>) = config s"
  "config (s\<lparr>rs_request := x2\<rparr>) = config s"
  "config (s\<lparr>rs_response := x3\<rparr>) = config s"
  "config (s\<lparr>rs_source := x4\<rparr>) = config s"
  "config (s\<lparr>rs_aborted := x5\<rparr>) = config s"
  "config (s\<lparr>rs_request_pending := x6\<rparr>) = config s"
  "config (s\<lparr>rs_error := x7\<rparr>) = config s"
  "config (s\<lparr>rs_reading := x8\<rparr>) = config s"
  "config (s\<lparr>rs_retry := x9\<rparr>) = config s"
  "config (s\<lparr>rs_exp_md5 := x10\<rparr>) = config s"
  "config (s\<lparr>rs_exp_len := x11\<rparr>) = config s"
  "config (s\<lparr>rs_exp_etag := x12\<rparr>) = config s"
  "config (s\<lparr>cb_get := x13\<rparr>) = config s"
  "config (s\<lparr>cb_result := x14\<rparr>) = config s"
  "config (s\<lparr>cb_timer := x15\<rparr>) = config s"
  "config (s\<lparr>cb_end := x16\<rparr>) = config s"
  "config (s\<lparr>cb_readable := x17\<rparr>) = config s"
  "config (s\<lparr>src_ended := x18\<rparr>) = config s"
  "config (s\<lparr>out_notes := x19\<rparr>) = config s"
  "config (s\<lparr>out_requests := x20\<rparr>) = config s"
  "config (s\<lparr>out_cleanups := x21\<rparr>) = config s"
  "config (s\<lparr>thrown := x22\<rparr>) = config s"
  by (simp_all add: config_def)


lemma metadata_pump: "metadata (pump rd s) = metadata s"
  by (simp add: pump_def throw_def Let_def metadata_update split: option.splits)

lemma metadata_pump_all: "metadata (pump_all n rd s) = metadata s"
  by (induction n arbitrary: rd s) (simp_all add: metadata_pump)

lemma metadata_stopAndCleanUp: "metadata (stopAndCleanUp s) = metadata s"
  by (simp add: stopAndCleanUp_def throw_def Let_def metadata_update)

lemma metadata_internalError: "metadata (internalError e s) = metadata s"
  by (simp add: internalError_def metadata_stopAndCleanUp metadata_update)

lemma metadata_makeRequest: "metadata (makeRequest s) = metadata s"
  by (simp add: makeRequest_def throw_def metadata_update)

lemma metadata_rs_read: "metadata (rs_read rd s) = metadata s"
  by (simp add: rs_read_def Let_def metadata_pump metadata_makeRequest metadata_update)

lemma metadata_get_callback: "metadata (get_callback e r s) = metadata s"
  by (simp add: get_callback_def Let_def metadata_internalError metadata_stopAndCleanUp
      metadata_update split: option.splits)

lemma metadata_on_result:
  "rs_exp_len s \<noteq> None \<Longrightarrow> metadata (on_result r rd s) = metadata s"
  by (auto simp add: on_result_def Let_def metadata_internalError metadata_pump metadata_update
      throw_def split: option.splits sum.splits)

lemma metadata_responseEnd: "metadata (responseEnd dg s) = metadata s"
  by (simp add: responseEnd_def Let_def metadata_internalError metadata_rs_read throw_def
      metadata_update split: option.splits)

lemma metadata_abort: "metadata (abort s) = metadata s"
  by (simp add: abort_def metadata_stopAndCleanUp metadata_update)

lemma metadata_step:
  "rs_exp_len s \<noteq> None \<Longrightarrow> metadata (step dg ev s) = metadata s"
  by (simp add: step_def on_end_def metadata_rs_read metadata_get_callback metadata_makeRequest
      metadata_on_result metadata_pump_all metadata_responseEnd metadata_abort metadata_update
      throw_def split: event.splits list.splits)

lemma metadata_run:
  "rs_exp_len s \<noteq> None \<Longrightarrow> metadata (run dg s evs) = metadata s"
proof (induction evs arbitrary: s)
  case Nil
  then show ?case by simp
next
  case (Cons ev evs)
  have "metadata (step dg ev s) = metadata s" using Cons.prems by (rule metadata_step)
  moreover from this have "rs_exp_len (step dg ev s) \<noteq> None"
    using Cons.prems by (simp add: metadata_def)
  ultimately show ?case using Cons.IH [of "step dg ev s"] by simp
qed

lemma config_pump: "config (pump rd s) = config s"
  by (simp add: pump_def throw_def Let_def config_update split: option.splits)

lemma config_pump_all: "config (pump_all n rd s) = config s"
  by (induction n arbitrary: rd s) (simp_all add: config_pump)

lemma config_stopAndCleanUp: "config (stopAndCleanUp s) = config s"
  by (simp add: stopAndCleanUp_def throw_def Let_def config_update)

lemma config_internalError: "config (internalError e s) = config s"
  by (simp add: internalError_def config_stopAndCleanUp config_update)

lemma config_makeRequest: "config (makeRequest s) = config s"
  by (simp add: makeRequest_def throw_def config_update)

lemma config_rs_read: "config (rs_read rd s) = config s"
  by (simp add: rs_read_def Let_def config_pump config_makeRequest config_update)

lemma config_get_callback: "config (get_callback e r s) = config s"
  by (simp add: get_callback_def Let_def config_internalError config_stopAndCleanUp
      config_update split: option.splits)

lemma config_on_result: "config (on_result r rd s) = config s"
  by (simp add: on_result_def Let_def config_internalError config_pump config_update
      throw_def split: option.splits sum.splits)

lemma config_responseEnd: "config (responseEnd dg s) = config s"
  by (simp add: responseEnd_def Let_def config_internalError config_rs_read throw_def
      config_update split: option.splits)

lemma config_abort: "config (abort s) = config s"
  by (simp add: abort_def config_stopAndCleanUp config_update)

lemma config_step: "config (step dg ev s) = config s"
  by (simp add: step_def on_end_def config_rs_read config_get_callback config_makeRequest
      config_on_result config_pump_all config_responseEnd config_abort config_update
      throw_def split: event.splits list.splits)

lemma config_run: "config (run dg s evs) = config s"
  by (induction evs arbitrary: s) (simp_all add: config_step)

section \<open>After a terminal notification\<close>

lemma finished_step: "finished s \<Longrightarrow> finished (step dg ev s)"
proof -
  assume f: "finished s"
  from f have z: "cb_get s = 0" "cb_result s = 0" "cb_timer s = 0" "cb_end s = []"
    by (simp_all add: finished_def)
  show ?thesis
  proof (cases ev)
    case (EvRead rd)
    then show ?thesis using read_finished [OF f] by simp
  next
    case (EvReadable rd)
    then show ?thesis using readable_finished [OF f] by simp
  next
    case EvAbort
    then show ?thesis using abort_finished [OF f] f
      by (simp add: step_def finished_def core_def)
  qed (use f z in \<open>simp_all add: step_EvGet_noop step_EvResult_noop step_EvTimer_noop
        step_EvEnd_noop\<close>)
qed

lemma finished_run: "finished s \<Longrightarrow> finished (run dg s evs)"
  by (induction evs arbitrary: s) (simp_all add: finished_step)

text \<open>A finished stream issues no request.\<close>

lemma finished_no_request: "finished s \<Longrightarrow> out_requests (step dg ev s) = out_requests s"
proof -
  assume f: "finished s"
  from f have z: "cb_get s = 0" "cb_result s = 0" "cb_timer s = 0" "cb_end s = []"
    by (simp_all add: finished_def)
  have r: "rs_error s \<noteq> None \<or> rs_response s \<noteq> None"
    using f by (auto simp add: finished_def)
  show ?thesis
  proof (cases ev)
    case (EvRead rd)
    then show ?thesis using r f
      by (auto simp add: step_def rs_read_def Let_def pump_requests finished_def core_def)
  next
    case (EvReadable rd)
    then show ?thesis using f by (simp add: step_def pump_all_requests finished_def core_def)
  next
    case EvAbort
    then show ?thesis using f by (simp add: step_def abort_requests finished_def core_def)
  qed (use f z in \<open>simp_all add: step_EvGet_noop step_EvResult_noop step_EvTimer_noop
        step_EvEnd_noop\<close>)
qed

lemma finished_run_no_request:
  "finished s \<Longrightarrow> out_requests (run dg s evs) = out_requests s"
proof (induction evs arbitrary: s)
  case Nil
  then show ?case by simp
next
  case (Cons ev evs)
  then show ?case using finished_step [OF Cons.prems, of dg ev] finished_no_request [OF Cons.prems, of dg ev]
    by simp
qed

text \<open>The notifications only grow.\<close>

lemma notes_pump:
  "out_notes (pump rd s) =
   out_notes s @
     (if rs_source s \<noteq> None \<and> \<not> finalized (rs_md5 s)
      then (case rd of Some b \<Rightarrow> [Data b] | None \<Rightarrow> []) else [])"
  by (simp add: pump_def throw_def Let_def split: option.splits)

lemma notes_pump_all: "\<exists>extra. out_notes (pump_all n rd s) = out_notes s @ extra"
proof (induction n arbitrary: rd s)
  case 0
  then show ?case by simp
next
  case (Suc n)
  obtain m2 where "out_notes (pump_all n None (pump rd s)) = out_notes (pump rd s) @ m2"
    using Suc.IH by blast
  then show ?case by (simp add: notes_pump)
qed

lemma notes_stopAndCleanUp: "out_notes (stopAndCleanUp s) = out_notes s"
  by (simp add: stopAndCleanUp_def throw_def Let_def)

lemma notes_internalError: "out_notes (internalError e s) = out_notes s @ [Error e]"
  by (simp add: internalError_def notes_stopAndCleanUp)

lemma notes_makeRequest: "out_notes (makeRequest s) = out_notes s"
  by (simp add: makeRequest_def throw_def)

lemma notes_rs_read: "\<exists>extra. out_notes (rs_read rd s) = out_notes s @ extra"
  by (simp add: rs_read_def Let_def notes_makeRequest notes_pump)

lemma notes_get_callback: "\<exists>extra. out_notes (get_callback e r s) = out_notes s @ extra"
  by (simp add: get_callback_def Let_def notes_internalError notes_stopAndCleanUp
      split: option.splits)

lemma notes_on_result: "\<exists>extra. out_notes (on_result r rd s) = out_notes s @ extra"
  by (simp add: on_result_def Let_def notes_internalError notes_pump throw_def
      split: option.splits sum.splits)

lemma notes_responseEnd: "\<exists>extra. out_notes (responseEnd dg s) = out_notes s @ extra"
  using notes_rs_read [of None "s\<lparr>cb_readable := 0, rs_request := None, rs_response := None,
                rs_source := None, rs_reading := False\<rparr>"]
  by (simp add: responseEnd_def Let_def notes_internalError throw_def split: option.splits)

lemma notes_abort: "out_notes (abort s) = out_notes s"
  by (simp add: abort_def notes_stopAndCleanUp)

lemma notes_step: "\<exists>extra. out_notes (step dg ev s) = out_notes s @ extra"
proof (cases ev)
  case (EvRead rd)
  then show ?thesis using notes_rs_read [of "read_result s rd" s] by (simp add: step_def)
next
  case (EvGet e r)
  then show ?thesis using notes_get_callback [of e r "s\<lparr>cb_get := cb_get s - 1\<rparr>"]
    by (simp add: step_def)
next
  case (EvResult r rd)
  then show ?thesis
    using notes_on_result [of r rd "s\<lparr>cb_result := cb_result s - 1, src_ended := False\<rparr>"]
    by (simp add: step_def)
next
  case EvTimer
  then show ?thesis by (simp add: step_def notes_makeRequest)
next
  case (EvReadable rd)
  then show ?thesis
    using notes_pump_all [of "cb_readable s" "read_result s rd" "s\<lparr>cb_readable := 0\<rparr>"]
    by (simp add: step_def)
next
  case EvEnd
  then show ?thesis
  proof (cases "cb_end s")
    case Nil
    with EvEnd show ?thesis by (simp add: step_def)
  next
    case (Cons r rest)
    with EvEnd show ?thesis
      using notes_responseEnd [of dg "s\<lparr>cb_end := rest, src_ended := True\<rparr>"]
      by (simp add: step_def on_end_def throw_def)
  qed
next
  case EvAbort
  then show ?thesis by (simp add: step_def notes_abort)
qed

lemma notes_run: "\<exists>extra. out_notes (run dg s evs) = out_notes s @ extra"
proof (induction evs arbitrary: s)
  case Nil
  then show ?case by simp
next
  case (Cons ev evs)
  obtain m1 where m1: "out_notes (step dg ev s) = out_notes s @ m1"
    using notes_step by blast
  obtain m2 where "out_notes (run dg (step dg ev s) evs) = out_notes (step dg ev s) @ m2"
    using Cons.IH by blast
  then show ?case using m1 by simp
qed

text \<open>
  Once a terminal notification is out, whatever follows in any continuation is data
  only: no second terminal notification.
\<close>

lemma finished_no_more_terminals:
  assumes "finished s" "out_notes (run dg s evs) = out_notes s @ extra"
  shows "filter is_terminal extra = []"
proof -
  have "terminals (run dg s evs) = 1" "terminals s = 1"
    using finished_run [OF assms(1), of dg evs] assms(1) by (simp_all add: finished_def)
  then show ?thesis using assms(2) by (simp add: terminals_def)
qed

lemma no_terminal_no_End: "filter is_terminal ns = [] \<Longrightarrow> End \<notin> set ns"
  by (induction ns) (auto split: if_splits)

lemma no_terminal_no_Error: "filter is_terminal ns = [] \<Longrightarrow> Error e \<notin> set ns"
  by (induction ns) (auto split: if_splits)

section \<open>Reachable states\<close>

lemma inv_reachable: "inv (run dg (ReliableHttpStream p pol) evs)"
  by (rule inv_run) (rule inv_init)

lemma inv_streaming: "inv s \<Longrightarrow> cb_end s \<noteq> [] \<Longrightarrow> streaming s"
  by (auto simp add: inv_def connecting_def awaiting_result_def backing_off_def awaiting_def
      idle_def finished_def)

lemma inv_awaiting_result: "inv s \<Longrightarrow> cb_result s > 0 \<Longrightarrow> awaiting_result s"
  by (auto simp add: inv_def connecting_def backing_off_def streaming_def idle_def finished_def)

lemma inv_connecting: "inv s \<Longrightarrow> cb_get s > 0 \<Longrightarrow> connecting s"
  by (auto simp add: inv_def awaiting_result_def backing_off_def streaming_def idle_def
      finished_def)

lemma inv_backing_off: "inv s \<Longrightarrow> cb_timer s > 0 \<Longrightarrow> backing_off s"
  by (auto simp add: inv_def awaiting_result_def connecting_def streaming_def idle_def
      finished_def)

section \<open>The end of a response\<close>

lemma end_premature_live_eq:
  assumes "streaming s" "exp_len_num s > int (rs_nbytesread s)" "\<not> rs_aborted s"
  shows "out_notes (step dg EvEnd s) = out_notes s \<and>
         out_requests (step dg EvEnd s) = out_requests s @ [request_at s] \<and>
         cb_timer (step dg EvEnd s) = 0 \<and>
         rs_retry (step dg EvEnd s) = Some (operation (rs_retrypolicy s)) \<and>
         rs_error (step dg EvEnd s) = None \<and>
         \<not> rs_aborted (step dg EvEnd s)"
proof -
  obtain r where "rs_response s = Some r" "cb_end s = [r]" "rs_source s = Some r"
    using assms(1) by (rule streaming_response)
  then show ?thesis using assms
    by (simp add: streaming_def core_def step_def on_end_def responseEnd_def rs_read_def
        makeRequest_def exp_len_num_def request_at_def Let_def)
qed

lemma end_complete_eq:
  assumes "streaming s" "\<not> exp_len_num s > int (rs_nbytesread s)"
  shows "out_requests (step dg EvEnd s) = out_requests s \<and>
         out_notes (step dg EvEnd s) =
           out_notes s @
             [case rs_exp_md5 s of
                None \<Rightarrow> End
              | Some m \<Rightarrow> if m \<noteq> dg (delivered s) then Error (Md5Mismatch m (dg (delivered s)))
                          else End]"
proof -
  obtain r where "rs_response s = Some r" "cb_end s = [r]" "rs_source s = Some r"
    using assms(1) by (rule streaming_response)
  then show ?thesis using assms
    by (simp add: streaming_def core_def step_def on_end_def responseEnd_def internalError_def
        stopAndCleanUp_def throw_def exp_len_num_def Let_def split: option.splits)
qed

text \<open>
  C2. In any state a stream can reach in which a response is live and the stream is not
  aborted, the end of the response is handled by the comparison of the declared length
  with the bytes consumed. If the bytes consumed are fewer, nothing is told to the
  consumer, no error is recorded, no timer is set, a new retry operation with the
  whole budget replaces the old one, and one request is issued at once, from the
  current offset. Otherwise (the bytes consumed equal the declared length or exceed
  it) no request is issued and the stream goes on to the checksum and the terminal
  notification: \<open>End\<close>, or the checksum error when a declared checksum differs.
\<close>

theorem response_end_retries_iff_short:
  assumes "s = run dg (ReliableHttpStream p pol) evs"
    and "cb_end s \<noteq> []"
    and "\<not> rs_aborted s"
  shows "if exp_len_num s > int (rs_nbytesread s)
         then out_notes (step dg EvEnd s) = out_notes s \<and>
              rs_error (step dg EvEnd s) = None \<and>
              cb_timer (step dg EvEnd s) = 0 \<and>
              rs_retry (step dg EvEnd s) = Some \<lparr>op_timeouts = retries (rs_retrypolicy s)\<rparr> \<and>
              out_requests (step dg EvEnd s) =
                out_requests s @
                  [\<lparr>rq_path = rs_path s, rq_retry = rs_retrypolicy s,
                    rq_range = range_header (rs_nbytesread s)\<rparr>]
         else out_requests (step dg EvEnd s) = out_requests s \<and>
              out_notes (step dg EvEnd s) =
                out_notes s @
                  [case rs_exp_md5 s of
                     None \<Rightarrow> End
                   | Some m \<Rightarrow>
                       if m \<noteq> dg (delivered s)
                       then Error (Md5Mismatch m (dg (delivered s))) else End]"
proof -
  have "inv s" using assms(1) by (simp add: inv_reachable)
  then have st: "streaming s" using assms(2) by (rule inv_streaming)
  show ?thesis
  proof (cases "exp_len_num s > int (rs_nbytesread s)")
    case True
    then show ?thesis using end_premature_live_eq [OF st True assms(3), of dg]
      by (simp add: request_at_def operation_def)
  next
    case False
    then show ?thesis using end_complete_eq [OF st False, of dg] by simp
  qed
qed

lemmas eval_defs = step_def rs_read_def makeRequest_def get_callback_def on_result_def
  responseEnd_def on_end_def abort_def stopAndCleanUp_def internalError_def pump_def throw_def
  read_result_def retry_def operation_def retryable_def exp_len_num_def
  ReliableHttpStream_def default_policy_def range_header_def or_null_def
  content_length_or_0_def parseInt10_def is_space_def is_digit_def digits_value_def
  digit_char_def demo_digest_def demo_response_def Let_def

theorem response_end_retries_iff_short_witness:
  "out_requests
     (run demo_digest (ReliableHttpStream ''/r'' None)
        [EvRead None, EvGet None 0,
         EvResult (Inr (demo_response 0 None ''5'' ''v1'')) (Some ''ab''), EvEnd]) =
   [\<lparr>rq_path = ''/r'', rq_retry = default_policy, rq_range = None\<rparr>,
    \<lparr>rq_path = ''/r'', rq_retry = default_policy, rq_range = Some ''bytes=2-''\<rparr>]"
proof -
  let ?evs = "[EvRead None, EvGet None 0,
         EvResult (Inr (demo_response 0 None ''5'' ''v1'')) (Some ''ab'')]"
  let ?s = "run demo_digest (ReliableHttpStream ''/r'' None) ?evs"
  have h: "cb_end ?s \<noteq> []" "\<not> rs_aborted ?s" "exp_len_num ?s > int (rs_nbytesread ?s)"
    by (simp_all add: eval_defs)
  have v: "out_requests ?s = [\<lparr>rq_path = ''/r'', rq_retry = default_policy, rq_range = None\<rparr>]"
    "rs_path ?s = ''/r''" "rs_retrypolicy ?s = default_policy" "rs_nbytesread ?s = 2"
    by (simp_all add: eval_defs)
  have "range_header 2 = Some ''bytes=2-''"
    by code_simp
  then show ?thesis
    using response_end_retries_iff_short [OF refl h(1) h(2)] h(3) v
    by simp
qed

section \<open>A failed request\<close>

lemma result_retry_eq:
  assumes "awaiting_result s" "retryable e" "rs_retry s = Some op" "op_timeouts op > 0"
  shows "out_notes (step dg (EvResult (Inl e) rd) s) = out_notes s \<and>
         out_requests (step dg (EvResult (Inl e) rd) s) = out_requests s \<and>
         rs_error (step dg (EvResult (Inl e) rd) s) = None \<and>
         cb_timer (step dg (EvResult (Inl e) rd) s) = 1 \<and>
         rs_retry (step dg (EvResult (Inl e) rd) s) = Some \<lparr>op_timeouts = op_timeouts op - 1\<rparr> \<and>
         rs_aborted (step dg (EvResult (Inl e) rd) s) = rs_aborted s \<and>
         rs_nbytesread (step dg (EvResult (Inl e) rd) s) = rs_nbytesread s"
  using assms
  by (simp add: awaiting_result_def awaiting_def core_def step_def on_result_def retry_def Let_def)

lemma result_error_eq:
  assumes "awaiting_result s" "rs_retry s = Some op" "\<not> (retryable e \<and> op_timeouts op > 0)"
  shows "out_notes (step dg (EvResult (Inl e) rd) s) = out_notes s @ [Error (Upstream e)] \<and>
         out_requests (step dg (EvResult (Inl e) rd) s) = out_requests s \<and>
         cb_timer (step dg (EvResult (Inl e) rd) s) = 0 \<and>
         op_timeouts (the (rs_retry (step dg (EvResult (Inl e) rd) s))) = op_timeouts op"
  using assms
  by (auto simp add: awaiting_result_def awaiting_def core_def step_def on_result_def retry_def
      internalError_def stopAndCleanUp_def throw_def Let_def)

lemma timer_live_eq:
  assumes "backing_off s" "\<not> rs_aborted s"
  shows "out_requests (step dg EvTimer s) = out_requests s @ [request_at s] \<and>
         rs_retry (step dg EvTimer s) = rs_retry s \<and>
         out_notes (step dg EvTimer s) = out_notes s"
  using assms
  by (simp add: backing_off_def awaiting_def core_def step_def makeRequest_def request_at_def)

lemma request_at_cong:
  "config s' = config s \<Longrightarrow> rs_nbytesread s' = rs_nbytesread s \<Longrightarrow> request_at s' = request_at s"
  by (simp add: config_def request_at_def)

text \<open>
  C6. In any state a stream can reach in which a request awaits its result, a failure
  \<open>e\<close> is retried exactly when it is retryable (it has no status code, or one of 500 or
  more) and the retry operation still holds a timeout: then nothing is told to the
  consumer, one timeout is used, a timer is set, and when the timer fires the request
  is issued again from the current offset (unless the stream was aborted meanwhile).
  In every other case \<open>e\<close> itself is emitted as the error, no timer is set, the
  budget is left as it was, and no request is issued in any continuation. A 4xx
  failure is never retryable.
\<close>

theorem failed_response_retry_or_error:
  assumes "s = run dg (ReliableHttpStream p pol) evs"
    and "cb_result s > 0"
  shows "(retryable e \<longleftrightarrow> statusCode e = None \<or> (\<exists>c. statusCode e = Some c \<and> 500 \<le> c)) \<and>
         ((\<exists>c. statusCode e = Some c \<and> 400 \<le> c \<and> c < 500) \<longrightarrow> \<not> retryable e) \<and>
         rs_retry s \<noteq> None \<and>
         (if retryable e \<and> op_timeouts (the (rs_retry s)) > 0
          then out_notes (step dg (EvResult (Inl e) rd) s) = out_notes s \<and>
               rs_error (step dg (EvResult (Inl e) rd) s) = None \<and>
               cb_timer (step dg (EvResult (Inl e) rd) s) = 1 \<and>
               rs_retry (step dg (EvResult (Inl e) rd) s) =
                 Some \<lparr>op_timeouts = op_timeouts (the (rs_retry s)) - 1\<rparr> \<and>
               out_requests (step dg (EvResult (Inl e) rd) s) = out_requests s \<and>
               (\<not> rs_aborted s \<longrightarrow>
                  out_requests (step dg EvTimer (step dg (EvResult (Inl e) rd) s)) =
                    out_requests s @
                      [\<lparr>rq_path = rs_path s, rq_retry = rs_retrypolicy s,
                        rq_range = range_header (rs_nbytesread s)\<rparr>])
          else out_notes (step dg (EvResult (Inl e) rd) s) = out_notes s @ [Error (Upstream e)] \<and>
               cb_timer (step dg (EvResult (Inl e) rd) s) = 0 \<and>
               op_timeouts (the (rs_retry (step dg (EvResult (Inl e) rd) s))) =
                 op_timeouts (the (rs_retry s)) \<and>
               (\<forall>evs'. out_requests (run dg (step dg (EvResult (Inl e) rd) s) evs') =
                  out_requests s))"
    (is "?R \<and> ?C \<and> ?M")
proof -
  let ?s' = "step dg (EvResult (Inl e) rd) s"
  have "inv s" using assms(1) by (simp add: inv_reachable)
  then have a: "awaiting_result s" using assms(2) by (rule inv_awaiting_result)
  then obtain op where op: "rs_retry s = Some op"
    by (auto simp add: awaiting_result_def awaiting_def)
  have r: ?R
    by (cases "statusCode e") (simp_all add: retryable_def)
  have c4: ?C
    by (auto simp add: retryable_def)
  have m: ?M
  proof (cases "retryable e \<and> op_timeouts op > 0")
    case True
    then have re: "retryable e" and pos: "op_timeouts op > 0" by simp_all
    note eq = result_retry_eq [OF a re op pos, of dg rd]
    have b: "backing_off ?s'" using result_retry [OF a re op pos] .
    have "\<not> rs_aborted s \<Longrightarrow>
          out_requests (step dg EvTimer ?s') = out_requests s @ [request_at s]"
    proof -
      assume "\<not> rs_aborted s"
      then have "\<not> rs_aborted ?s'" using eq by simp
      then have "out_requests (step dg EvTimer ?s') = out_requests ?s' @ [request_at ?s']"
        using timer_live_eq [OF b] by simp
      moreover have "request_at ?s' = request_at s"
        using eq by (intro request_at_cong) (simp_all add: config_step)
      ultimately show ?thesis using eq by simp
    qed
    then show ?thesis using True eq op by (simp add: request_at_def)
  next
    case False
    note eq = result_error_eq [OF a op False, of dg rd]
    have "finished ?s'"
      using False result_exhausted [OF a _ op, of e dg rd] result_fatal [OF a, of e dg rd]
      by (cases "retryable e") auto
    then have "\<forall>evs'. out_requests (run dg ?s' evs') = out_requests ?s'"
      by (simp add: finished_run_no_request)
    then show ?thesis using False eq op by simp
  qed
  show ?thesis using r c4 m by (rule conjI [OF _ conjI])
qed

theorem failed_response_retry_or_error_witness:
  "cb_result after_503 > 0 \<and>
   out_notes (step demo_digest (EvResult (Inl error_503) None) after_503) =
     [Error (Upstream error_503)] \<and>
   out_notes (step demo_digest (EvResult (Inl error_400) None) after_503) =
     [Error (Upstream error_400)]"
proof -
  have h: "cb_result after_503 > 0" "rs_retry after_503 = Some \<lparr>op_timeouts = 0\<rparr>"
      "out_notes after_503 = []"
    by (simp_all add: after_503_def one_retry_def error_503_def eval_defs)
  show ?thesis
    using h failed_response_retry_or_error [OF after_503_def h(1), of error_503 None]
      failed_response_retry_or_error [OF after_503_def h(1), of error_400 None]
    by (simp add: error_503_def error_400_def)
qed

section \<open>The retry operation of a request cycle\<close>

lemma inv_idle:
  "inv s \<Longrightarrow> rs_response s = None \<Longrightarrow> \<not> rs_reading s \<Longrightarrow> rs_error s = None \<Longrightarrow> idle s"
  by (auto simp add: inv_def connecting_def awaiting_result_def backing_off_def awaiting_def
      streaming_def finished_def core_def)

lemma read_idle_eq:
  assumes "idle s" "\<not> rs_aborted s"
  shows "rs_retry (step dg (EvRead rd) s) = Some (operation (rs_retrypolicy s)) \<and>
         out_requests (step dg (EvRead rd) s) = out_requests s @ [request_at s] \<and>
         out_notes (step dg (EvRead rd) s) = out_notes s"
  using assms
  by (simp add: idle_def core_def step_def rs_read_def makeRequest_def request_at_def Let_def)

text \<open>
  C10. The retry operation belongs to a request cycle, not to the session. In any
  state a stream can reach: a demand signal that starts a cycle creates a new
  operation with as many timeouts as the policy has retries, whatever the old one
  held; so does the end of a response that came short; a retried failure inside a
  cycle uses one timeout of the current operation, and the request issued when the
  timer fires keeps that operation.
\<close>

theorem retry_budget_per_cycle:
  assumes "s = run dg (ReliableHttpStream p pol) evs"
  shows "(\<not> rs_aborted s \<and> rs_error s = None \<and> \<not> rs_reading s \<and> rs_response s = None \<longrightarrow>
            rs_retry (step dg (EvRead rd) s) = Some \<lparr>op_timeouts = retries (rs_retrypolicy s)\<rparr> \<and>
            out_requests (step dg (EvRead rd) s) = out_requests s @ [request_at s]) \<and>
         (\<not> rs_aborted s \<and> cb_end s \<noteq> [] \<and> exp_len_num s > int (rs_nbytesread s) \<longrightarrow>
            rs_retry (step dg EvEnd s) = Some \<lparr>op_timeouts = retries (rs_retrypolicy s)\<rparr> \<and>
            out_requests (step dg EvEnd s) = out_requests s @ [request_at s]) \<and>
         (cb_result s > 0 \<and> retryable e \<and> op_timeouts (the (rs_retry s)) > 0 \<longrightarrow>
            rs_retry (step dg (EvResult (Inl e) rd') s) =
              Some \<lparr>op_timeouts = op_timeouts (the (rs_retry s)) - 1\<rparr>) \<and>
         (cb_timer s > 0 \<and> \<not> rs_aborted s \<longrightarrow>
            rs_retry (step dg EvTimer s) = rs_retry s \<and>
            out_requests (step dg EvTimer s) = out_requests s @ [request_at s])"
    (is "?A \<and> ?B \<and> ?C \<and> ?D")
proof -
  have i: "inv s" using assms by (simp add: inv_reachable)
  have a: ?A
    using read_idle_eq [OF inv_idle [OF i], of dg rd] by (simp add: operation_def)
  have b: ?B
    using end_premature_live_eq [OF inv_streaming [OF i], of dg] by (simp add: operation_def)
  have c: ?C
  proof
    assume h: "cb_result s > 0 \<and> retryable e \<and> op_timeouts (the (rs_retry s)) > 0"
    then have ar: "awaiting_result s" using inv_awaiting_result [OF i] by simp
    then obtain op where op: "rs_retry s = Some op"
      by (auto simp add: awaiting_result_def awaiting_def)
    show "rs_retry (step dg (EvResult (Inl e) rd') s) =
            Some \<lparr>op_timeouts = op_timeouts (the (rs_retry s)) - 1\<rparr>"
      using result_retry_eq [OF ar _ op, of e dg rd'] h op by simp
  qed
  have d: ?D
    using timer_live_eq [OF inv_backing_off [OF i], of dg] by simp
  show ?thesis using a b c d by (rule conjI [OF _ conjI [OF _ conjI]])
qed

theorem retry_budget_per_cycle_witness:
  "rs_retry after_503_and_short_response = Some \<lparr>op_timeouts = 0\<rparr> \<and>
   \<not> rs_aborted after_503_and_short_response \<and>
   cb_end after_503_and_short_response \<noteq> [] \<and>
   exp_len_num after_503_and_short_response > int (rs_nbytesread after_503_and_short_response) \<and>
   rs_retry (step demo_digest EvEnd after_503_and_short_response) = Some \<lparr>op_timeouts = 1\<rparr>"
proof -
  have h: "rs_retry after_503_and_short_response = Some \<lparr>op_timeouts = 0\<rparr>"
      "\<not> rs_aborted after_503_and_short_response"
      "cb_end after_503_and_short_response \<noteq> []"
      "exp_len_num after_503_and_short_response > int (rs_nbytesread after_503_and_short_response)"
      "rs_retrypolicy after_503_and_short_response = one_retry"
    by (simp_all add: after_503_and_short_response_def one_retry_def error_503_def eval_defs)
  show ?thesis
    using h retry_budget_per_cycle [OF after_503_and_short_response_def]
    by (simp add: one_retry_def)
qed

section \<open>The headers of a response\<close>

lemma result_etag_mismatch_eq:
  assumes "awaiting_result s" "rs_exp_etag s \<noteq> None" "rs_exp_etag s \<noteq> hdr_etag res"
  shows "out_notes (step dg (EvResult (Inr res) rd) s) = out_notes s @ [Error EtagMismatch] \<and>
         rs_error (step dg (EvResult (Inr res) rd) s) = Some EtagMismatch \<and>
         cb_timer (step dg (EvResult (Inr res) rd) s) = 0 \<and>
         rs_retry (step dg (EvResult (Inr res) rd) s) = rs_retry s \<and>
         out_requests (step dg (EvResult (Inr res) rd) s) = out_requests s \<and>
         metadata (step dg (EvResult (Inr res) rd) s) = metadata s"
  using assms
  by (simp add: awaiting_result_def awaiting_def core_def step_def on_result_def
      internalError_def stopAndCleanUp_def throw_def metadata_def Let_def)

lemma result_accepted_eq:
  assumes "awaiting_result s" "rs_exp_etag s = None \<or> rs_exp_etag s = hdr_etag res"
  shows "out_notes (step dg (EvResult (Inr res) rd) s) =
           out_notes s @ (case rd of Some b \<Rightarrow> [Data b] | None \<Rightarrow> []) \<and>
         rs_error (step dg (EvResult (Inr res) rd) s) = None \<and>
         rs_response (step dg (EvResult (Inr res) rd) s) = Some res \<and>
         cb_end (step dg (EvResult (Inr res) rd) s) = [res] \<and>
         out_requests (step dg (EvResult (Inr res) rd) s) = out_requests s \<and>
         rs_aborted (step dg (EvResult (Inr res) rd) s) = rs_aborted s \<and>
         rs_reading (step dg (EvResult (Inr res) rd) s) = (rd = None) \<and>
         metadata (step dg (EvResult (Inr res) rd) s) =
           (if rs_exp_len s = None
            then (Some (content_length_or_0 (hdr_content_length res)),
                  or_null (hdr_content_md5 res), or_null (hdr_etag res))
            else metadata s)"
  using assms
  by (cases rd)
     (auto simp add: awaiting_result_def awaiting_def core_def step_def on_result_def pump_def
        metadata_def Let_def)

lemma finished_never_ends:
  assumes "finished s" "End \<notin> set (out_notes s)"
  shows "End \<notin> set (out_notes (run dg s evs))"
proof -
  obtain extra where e: "out_notes (run dg s evs) = out_notes s @ extra"
    using notes_run by blast
  have "filter is_terminal extra = []"
    using finished_no_more_terminals [OF assms(1) e] .
  then have "End \<notin> set extra" by (rule no_terminal_no_End)
  then show ?thesis using e assms(2) by simp
qed

lemma no_terminals_no_End: "terminals s = 0 \<Longrightarrow> End \<notin> set (out_notes s)"
  by (simp add: terminals_def no_terminal_no_End)

text \<open>
  C5. In any state a stream can reach in which a request awaits its result and an
  identity tag has been captured, a response whose \<^verbatim>\<open>etag\<close> header is not that tag
  makes the stream emit the etag-mismatch error, whatever the number of bytes consumed
  so far; the retry operation is not consulted, no timer is set, and in every
  continuation no request is issued, no second terminal notification is delivered and
  \<open>End\<close> never is. What is captured from the first response (length, checksum,
  tag) is whatever its headers say, and once the length is set no event changes any
  of the three.
\<close>

theorem etag_mismatch_is_fatal:
  assumes "s = run dg (ReliableHttpStream p pol) evs"
    and "cb_result s > 0"
  shows "(rs_exp_etag s = Some tag \<and> hdr_etag res \<noteq> Some tag \<longrightarrow>
            out_notes (step dg (EvResult (Inr res) rd) s) = out_notes s @ [Error EtagMismatch] \<and>
            rs_error (step dg (EvResult (Inr res) rd) s) = Some EtagMismatch \<and>
            cb_timer (step dg (EvResult (Inr res) rd) s) = 0 \<and>
            rs_retry (step dg (EvResult (Inr res) rd) s) = rs_retry s \<and>
            (\<forall>evs'. out_requests (run dg (step dg (EvResult (Inr res) rd) s) evs') =
                      out_requests s \<and>
                    terminals (run dg (step dg (EvResult (Inr res) rd) s) evs') = 1 \<and>
                    End \<notin> set (out_notes (run dg (step dg (EvResult (Inr res) rd) s) evs')))) \<and>
         (rs_exp_len s = None \<longrightarrow>
            metadata (step dg (EvResult (Inr res) rd) s) =
              (Some (content_length_or_0 (hdr_content_length res)),
               or_null (hdr_content_md5 res), or_null (hdr_etag res))) \<and>
         (\<forall>ev s0. rs_exp_len s0 \<noteq> None \<longrightarrow> metadata (step dg ev s0) = metadata s0)"
    (is "?A \<and> ?B \<and> ?C")
proof -
  let ?s' = "step dg (EvResult (Inr res) rd) s"
  have "inv s" using assms(1) by (simp add: inv_reachable)
  then have a: "awaiting_result s" using assms(2) by (rule inv_awaiting_result)
  have A: ?A
  proof
    assume h: "rs_exp_etag s = Some tag \<and> hdr_etag res \<noteq> Some tag"
    then have h1: "rs_exp_etag s \<noteq> None" and h2: "rs_exp_etag s \<noteq> hdr_etag res" by auto
    note eq = result_etag_mismatch_eq [OF a h1 h2, of dg rd]
    have f: "finished ?s'" using result_etag_mismatch [OF a h1 h2] .
    have "terminals s = 0" using a by (simp add: awaiting_result_def awaiting_def)
    then have "End \<notin> set (out_notes ?s')" using eq no_terminals_no_End [of s] by simp
    then have "\<forall>evs'. End \<notin> set (out_notes (run dg ?s' evs'))"
      using finished_never_ends [OF f] by simp
    moreover have "\<forall>evs'. terminals (run dg ?s' evs') = 1"
      using finished_run [OF f] by (simp add: finished_def)
    moreover have "\<forall>evs'. out_requests (run dg ?s' evs') = out_requests s"
      using finished_run_no_request [OF f] eq by simp
    ultimately show "out_notes ?s' = out_notes s @ [Error EtagMismatch] \<and>
            rs_error ?s' = Some EtagMismatch \<and> cb_timer ?s' = 0 \<and> rs_retry ?s' = rs_retry s \<and>
            (\<forall>evs'. out_requests (run dg ?s' evs') = out_requests s \<and>
                    terminals (run dg ?s' evs') = 1 \<and>
                    End \<notin> set (out_notes (run dg ?s' evs')))"
      using eq by simp
  qed
  have B: ?B
  proof
    assume n: "rs_exp_len s = None"
    then have "rs_exp_etag s = None" using a
      by (simp add: awaiting_result_def awaiting_def core_def)
    then show "metadata ?s' =
              (Some (content_length_or_0 (hdr_content_length res)),
               or_null (hdr_content_md5 res), or_null (hdr_etag res))"
      using result_accepted_eq [OF a, of res dg rd] n by simp
  qed
  have C: ?C by (simp add: metadata_step)
  show ?thesis using A B C by (rule conjI [OF _ conjI])
qed

theorem etag_mismatch_is_fatal_witness:
  "cb_result after_first_part > 0 \<and>
   rs_exp_etag after_first_part = Some ''v1'' \<and>
   out_notes (step demo_digest (EvResult (Inr (demo_response 1 None ''3'' ''v2'')) (Some ''cde''))
                after_first_part) =
     [Data ''ab'', Error EtagMismatch]"
proof -
  have h: "cb_result after_first_part > 0" "rs_exp_etag after_first_part = Some ''v1''"
      "out_notes after_first_part = [Data ''ab'']"
      "hdr_etag (demo_response 1 None ''3'' ''v2'') \<noteq> Some ''v1''"
    by (simp_all add: after_first_part_def eval_defs)
  show ?thesis
    using h etag_mismatch_is_fatal [OF after_first_part_def h(1),
        of "''v1''" "demo_response 1 None ''3'' ''v2''" "Some ''cde''"]
    by simp
qed

section \<open>A first response without an identity tag\<close>

text \<open>
  C9. In any state a stream can reach in which a request awaits its result: if no
  response has been captured yet and the response has no \<^verbatim>\<open>etag\<close> header, it is
  accepted and no tag is captured; and if a first response has been captured without
  a tag, every response is accepted whatever its \<^verbatim>\<open>etag\<close> header says (no error, the
  response becomes the live one, its first chunk is delivered), no tag is captured from
  it, and no later event captures one.
\<close>

theorem no_etag_disables_validation:
  assumes "s = run dg (ReliableHttpStream p pol) evs"
    and "cb_result s > 0"
  shows "(rs_exp_len s = None \<and> hdr_etag res = None \<longrightarrow>
            rs_error (step dg (EvResult (Inr res) rd) s) = None \<and>
            rs_exp_len (step dg (EvResult (Inr res) rd) s) \<noteq> None \<and>
            rs_exp_etag (step dg (EvResult (Inr res) rd) s) = None) \<and>
         (rs_exp_len s \<noteq> None \<and> rs_exp_etag s = None \<longrightarrow>
            rs_error (step dg (EvResult (Inr res) rd) s) = None \<and>
            rs_response (step dg (EvResult (Inr res) rd) s) = Some res \<and>
            cb_end (step dg (EvResult (Inr res) rd) s) = [res] \<and>
            out_notes (step dg (EvResult (Inr res) rd) s) =
              out_notes s @ (case rd of Some b \<Rightarrow> [Data b] | None \<Rightarrow> []) \<and>
            (\<forall>evs'. rs_exp_etag (run dg (step dg (EvResult (Inr res) rd) s) evs') = None))"
    (is "?A \<and> ?B")
proof -
  let ?s' = "step dg (EvResult (Inr res) rd) s"
  have "inv s" using assms(1) by (simp add: inv_reachable)
  then have a: "awaiting_result s" using assms(2) by (rule inv_awaiting_result)
  have A: ?A
  proof
    assume h: "rs_exp_len s = None \<and> hdr_etag res = None"
    then have "rs_exp_etag s = None" using a
      by (simp add: awaiting_result_def awaiting_def core_def)
    then show "rs_error ?s' = None \<and> rs_exp_len ?s' \<noteq> None \<and> rs_exp_etag ?s' = None"
      using result_accepted_eq [OF a, of res dg rd] h by (simp add: metadata_def or_null_def)
  qed
  have B: ?B
  proof
    assume h: "rs_exp_len s \<noteq> None \<and> rs_exp_etag s = None"
    note eq = result_accepted_eq [OF a, of res dg rd]
    have m: "metadata ?s' = metadata s" using eq h by simp
    then have l: "rs_exp_len ?s' \<noteq> None" using h by (simp add: metadata_def)
    have "\<forall>evs'. metadata (run dg ?s' evs') = metadata s"
      using metadata_run [OF l] m by simp
    then have "\<forall>evs'. rs_exp_etag (run dg ?s' evs') = None"
      using h by (simp add: metadata_def)
    then show "rs_error ?s' = None \<and> rs_response ?s' = Some res \<and> cb_end ?s' = [res] \<and>
            out_notes ?s' = out_notes s @ (case rd of Some b \<Rightarrow> [Data b] | None \<Rightarrow> []) \<and>
            (\<forall>evs'. rs_exp_etag (run dg ?s' evs') = None)"
      using eq h by simp
  qed
  show ?thesis using A B by (rule conjI)
qed

theorem no_etag_disables_validation_witness:
  "cb_result after_first_part_no_etag > 0 \<and>
   rs_exp_len after_first_part_no_etag \<noteq> None \<and>
   rs_exp_etag after_first_part_no_etag = None \<and>
   out_notes (step demo_digest (EvResult (Inr (demo_response 1 None ''3'' ''v2'')) (Some ''cde''))
                after_first_part_no_etag) =
     [Data ''ab'', Data ''cde'']"
proof -
  have h: "cb_result after_first_part_no_etag > 0"
      "rs_exp_len after_first_part_no_etag \<noteq> None"
      "rs_exp_etag after_first_part_no_etag = None"
      "out_notes after_first_part_no_etag = [Data ''ab'']"
    by (simp_all add: after_first_part_no_etag_def eval_defs)
  show ?thesis
    using h no_etag_disables_validation [OF after_first_part_no_etag_def h(1),
        of "demo_response 1 None ''3'' ''v2''" "Some ''cde''"]
    by simp
qed

section \<open>The checksum\<close>

lemma end_premature_notes:
  assumes "streaming s" "exp_len_num s > int (rs_nbytesread s)"
  shows "out_notes (step dg EvEnd s) = out_notes s"
proof -
  obtain r where "rs_response s = Some r" "cb_end s = [r]" "rs_source s = Some r"
    using assms(1) by (rule streaming_response)
  then show ?thesis using assms
    by (simp add: streaming_def core_def step_def on_end_def responseEnd_def rs_read_def
        makeRequest_def exp_len_num_def Let_def)
qed

text \<open>
  C4. In any state a stream can reach in which a response is live: when the response
  ends with the declared length reached, a captured checksum that is not the digest of
  the bytes delivered to the consumer makes the stream emit the checksum error, and
  \<open>End\<close> is not delivered then or in any continuation; with no captured checksum
  the stream emits \<open>End\<close> without any comparison when the declared length is
  reached, and emits nothing when it is not. The checksum captured is the
  \<^verbatim>\<open>content-md5\<close> header of the first response (none when the header is missing).
\<close>

theorem checksum_mismatch_is_fatal:
  assumes "s = run dg (ReliableHttpStream p pol) evs"
  shows "(cb_end s \<noteq> [] \<and> \<not> exp_len_num s > int (rs_nbytesread s) \<and>
          rs_exp_md5 s = Some m \<and> m \<noteq> dg (delivered s) \<longrightarrow>
            out_notes (step dg EvEnd s) =
              out_notes s @ [Error (Md5Mismatch m (dg (delivered s)))] \<and>
            (\<forall>evs'. End \<notin> set (out_notes (run dg (step dg EvEnd s) evs')))) \<and>
         (cb_end s \<noteq> [] \<and> rs_exp_md5 s = None \<longrightarrow>
            out_notes (step dg EvEnd s) =
              out_notes s @ (if exp_len_num s > int (rs_nbytesread s) then [] else [End])) \<and>
         (cb_result s > 0 \<and> rs_exp_len s = None \<longrightarrow>
            rs_exp_md5 (step dg (EvResult (Inr res) rd) s) = or_null (hdr_content_md5 res)) \<and>
         or_null None = None"
    (is "?A \<and> ?B \<and> ?C \<and> ?D")
proof -
  let ?s' = "step dg EvEnd s"
  have i: "inv s" using assms(1) by (simp add: inv_reachable)
  have A: ?A
  proof
    assume h: "cb_end s \<noteq> [] \<and> \<not> exp_len_num s > int (rs_nbytesread s) \<and>
               rs_exp_md5 s = Some m \<and> m \<noteq> dg (delivered s)"
    then have st: "streaming s" using inv_streaming [OF i] by simp
    from h have c: "\<not> exp_len_num s > int (rs_nbytesread s)" by simp
    note eq = end_complete_eq [OF st c, of dg]
    have f: "finished ?s'" using end_complete [OF st c] .
    have "terminals s = 0" using st by (simp add: streaming_def)
    then have "End \<notin> set (out_notes ?s')" using eq h no_terminals_no_End [of s] by simp
    then have "\<forall>evs'. End \<notin> set (out_notes (run dg ?s' evs'))"
      using finished_never_ends [OF f] by simp
    then show "out_notes ?s' = out_notes s @ [Error (Md5Mismatch m (dg (delivered s)))] \<and>
            (\<forall>evs'. End \<notin> set (out_notes (run dg ?s' evs')))"
      using eq h by simp
  qed
  have B: ?B
  proof
    assume h: "cb_end s \<noteq> [] \<and> rs_exp_md5 s = None"
    then have st: "streaming s" using inv_streaming [OF i] by simp
    show "out_notes ?s' =
            out_notes s @ (if exp_len_num s > int (rs_nbytesread s) then [] else [End])"
      using end_premature_notes [OF st, of dg] end_complete_eq [OF st, of dg] h
      by (cases "exp_len_num s > int (rs_nbytesread s)") simp_all
  qed
  have C: ?C
  proof
    assume h: "cb_result s > 0 \<and> rs_exp_len s = None"
    then have a: "awaiting_result s" using inv_awaiting_result [OF i] by simp
    then have "rs_exp_etag s = None" using h
      by (simp add: awaiting_result_def awaiting_def core_def)
    then show "rs_exp_md5 (step dg (EvResult (Inr res) rd) s) = or_null (hdr_content_md5 res)"
      using result_accepted_eq [OF a, of res dg rd] h by (simp add: metadata_def)
  qed
  have D: ?D by (simp add: or_null_def)
  show ?thesis using A B C D by (rule conjI [OF _ conjI [OF _ conjI]])
qed

theorem checksum_mismatch_is_fatal_witness:
  "cb_end before_bad_md5_end \<noteq> [] \<and>
   rs_exp_md5 before_bad_md5_end = Some ''deadbeef'' \<and>
   delivered before_bad_md5_end = ''abcde'' \<and>
   out_notes (step demo_digest EvEnd before_bad_md5_end) =
     [Data ''abcde'', Error (Md5Mismatch ''deadbeef'' ''md5:abcde'')]"
proof -
  have h: "cb_end before_bad_md5_end \<noteq> []"
      "\<not> exp_len_num before_bad_md5_end > int (rs_nbytesread before_bad_md5_end)"
      "rs_exp_md5 before_bad_md5_end = Some ''deadbeef''"
      "delivered before_bad_md5_end = ''abcde''"
      "out_notes before_bad_md5_end = [Data ''abcde'']"
    by (simp_all add: before_bad_md5_end_def delivered_def eval_defs)
  show ?thesis
    using h checksum_mismatch_is_fatal [OF before_bad_md5_end_def, of "''deadbeef''"]
    by (simp add: demo_digest_def)
qed

section \<open>Terminal notifications\<close>

lemma inv_terminals: "inv s \<Longrightarrow> terminals s \<le> 1"
  by (auto simp add: inv_def connecting_def awaiting_result_def backing_off_def awaiting_def
      streaming_def idle_def finished_def)

lemma inv_progress:
  "inv s \<Longrightarrow>
   terminals s = 1 \<or> rs_aborted s \<or> outstanding s = 1 \<or>
   out_requests s = [] \<and> \<not> rs_reading s"
  by (auto simp add: inv_def connecting_def awaiting_result_def backing_off_def awaiting_def
      streaming_def idle_def finished_def outstanding_def)

text \<open>
  C7, as it holds. Whatever the sequence of events, a stream delivers at most one
  terminal notification (\<open>End\<close> or \<open>Error\<close>, so never both). And, under the two
  assumptions of the model about its collaborators (the consumer has an \<^verbatim>\<open>'error'\<close>
  listener, so that \<^verbatim>\<open>emit('error', err)\<close> returns; the retry policy is one the retry
  module accepts, \<^verbatim>\<open>minTimeout\<close> at most \<^verbatim>\<open>maxTimeout\<close>, so that
  \<^verbatim>\<open>new mod_retry.operation\<close> returns), a stream that has delivered none and is not
  aborted is still at work: exactly one callback (the connection, the result, the retry
  timer or the end of the live response) is outstanding, or no request has been made and
  no demand is pending.
\<close>

theorem at_most_one_terminal:
  "terminals (run dg (ReliableHttpStream p pol) evs) \<le> 1 \<and>
   (terminals (run dg (ReliableHttpStream p pol) evs) = 1 \<or>
    rs_aborted (run dg (ReliableHttpStream p pol) evs) \<or>
    outstanding (run dg (ReliableHttpStream p pol) evs) = 1 \<or>
    out_requests (run dg (ReliableHttpStream p pol) evs) = [] \<and>
    \<not> rs_reading (run dg (ReliableHttpStream p pol) evs))"
  using inv_terminals [OF inv_reachable, of dg p pol evs]
    inv_progress [OF inv_reachable, of dg p pol evs]
  by simp

text \<open>
  The part of C7 that fails: a stream that is not aborted need not deliver a terminal
  notification. When every response is closed short of the declared length the stream
  asks again at once, and after each round it is in the state it was in before, but for
  the log of requests.
\<close>

theorem endless_early_closes_counterexample:
  "terminals (run demo_digest after_one_early_close closes_early) = 0 \<and>
   \<not> rs_aborted (run demo_digest after_one_early_close closes_early) \<and>
   cb_get (run demo_digest after_one_early_close closes_early) = 1 \<and>
   (run demo_digest after_one_early_close closes_early)
     \<lparr>out_requests := out_requests after_one_early_close\<rparr> = after_one_early_close"
  by (simp add: after_one_early_close_def closes_early_def terminals_def eval_defs)

section \<open>One segment\<close>

lemma advanced_refl: "advanced s [] s"
  by (simp add: advanced_def)

lemma advanced_trans: "advanced s a s1 \<Longrightarrow> advanced s1 b s2 \<Longrightarrow> advanced s (a @ b) s2"
  by (simp add: advanced_def)

lemma get_ok_advanced:
  assumes "connecting s" "\<not> rs_aborted s"
  shows "advanced s [] (step dg (EvGet None req) s) \<and>
         metadata (step dg (EvGet None req) s) = metadata s"
  using assms
  by (simp add: advanced_def metadata_def connecting_def awaiting_def core_def step_def
      get_callback_def Let_def)

lemma result_advanced:
  assumes "awaiting_result s" "rs_exp_etag s = None \<or> rs_exp_etag s = hdr_etag res"
  shows "advanced s (case rd of Some b \<Rightarrow> [Data b] | None \<Rightarrow> [])
           (step dg (EvResult (Inr res) rd) s) \<and>
         metadata (step dg (EvResult (Inr res) rd) s) = expected s res \<and>
         rs_reading (step dg (EvResult (Inr res) rd) s) = (rd = None)"
  using result_accepted_eq [OF assms, of dg rd] by (simp add: advanced_def expected_def)

lemma result_waits:
  assumes "awaiting_result s" "rs_exp_etag s = None \<or> rs_exp_etag s = hdr_etag res"
  shows "cb_readable (step dg (EvResult (Inr res) None) s) > 0"
  using assms
  by (auto simp add: awaiting_result_def awaiting_def core_def step_def on_result_def pump_def
      Let_def)

lemma result_streaming:
  assumes "awaiting_result s" "rs_exp_etag s = None \<or> rs_exp_etag s = hdr_etag res"
  shows "streaming (step dg (EvResult (Inr res) rd) s)"
  using result_accepted_wait [OF assms, of dg] result_accepted_data [OF assms, of dg]
  by (cases rd) simp_all

lemma read_chunk_advanced:
  assumes "streaming s" "\<not> rs_aborted s" "\<not> rs_reading s"
  shows "advanced s [Data b] (step dg (EvRead (Some b)) s) \<and>
         metadata (step dg (EvRead (Some b)) s) = metadata s \<and>
         \<not> rs_reading (step dg (EvRead (Some b)) s)"
proof -
  obtain r where "rs_response s = Some r" "cb_end s = [r]" "rs_source s = Some r"
    using assms(1) by (rule streaming_response)
  then show ?thesis using assms
    by (simp add: advanced_def metadata_def streaming_def core_def step_def rs_read_def pump_def
        read_result_def Let_def)
qed

lemma read_nothing_advanced:
  assumes "streaming s" "\<not> rs_aborted s"
  shows "advanced s [] (step dg (EvRead None) s) \<and>
         metadata (step dg (EvRead None) s) = metadata s"
proof -
  obtain r where "rs_response s = Some r" "cb_end s = [r]" "rs_source s = Some r"
    using assms(1) by (rule streaming_response)
  then show ?thesis using assms
    by (simp add: advanced_def metadata_def streaming_def core_def step_def rs_read_def pump_def
        read_result_def Let_def)
qed

lemma read_nothing_waits:
  assumes "streaming s" "\<not> rs_aborted s" "\<not> rs_reading s"
  shows "cb_readable (step dg (EvRead None) s) > 0"
proof -
  obtain r where "rs_response s = Some r" "cb_end s = [r]" "rs_source s = Some r"
    using assms(1) by (rule streaming_response)
  then show ?thesis using assms
    by (simp add: streaming_def core_def step_def rs_read_def pump_def read_result_def Let_def)
qed

text \<open>
  Late data: every waiting \<^verbatim>\<open>once('readable')\<close> listener runs \<^verbatim>\<open>pump\<close>; the first
  reads the chunk, the others read null and wait again.
\<close>

lemma pump_nothing_again:
  assumes "rs_source s \<noteq> None" "\<not> thrown s"
  shows "out_notes (pump_all n None s) = out_notes s \<and>
         out_requests (pump_all n None s) = out_requests s \<and>
         rs_aborted (pump_all n None s) = rs_aborted s \<and>
         rs_reading (pump_all n None s) = rs_reading s \<and>
         metadata (pump_all n None s) = metadata s"
  using assms
proof (induction n arbitrary: s)
  case 0
  then show ?case by simp
next
  case (Suc n)
  obtain r where r: "rs_source s = Some r" using Suc.prems(1) by auto
  have p: "pump None s = s\<lparr>cb_readable := cb_readable s + 1\<rparr>"
    using r by (simp add: pump_def)
  have "rs_source (pump None s) \<noteq> None" "\<not> thrown (pump None s)"
    using p Suc.prems by simp_all
  then show ?case using Suc.IH [of "pump None s"] Suc.prems(2) p
    by (simp add: metadata_def)
qed

lemma readable_chunk_advanced:
  assumes "streaming s" "\<not> rs_aborted s" "cb_readable s > 0"
  shows "advanced s [Data b] (step dg (EvReadable (Some b)) s) \<and>
         metadata (step dg (EvReadable (Some b)) s) = metadata s \<and>
         \<not> rs_reading (step dg (EvReadable (Some b)) s)"
proof -
  obtain r where r: "rs_response s = Some r" "cb_end s = [r]" "rs_source s = Some r"
    using assms(1) by (rule streaming_response)
  obtain n where n: "cb_readable s = Suc n" using assms(3) by (cases "cb_readable s") auto
  let ?s0 = "s\<lparr>cb_readable := 0\<rparr>"
  let ?s1 = "pump (Some b) ?s0"
  have s1: "?s1 = ?s0\<lparr>rs_nbytesread := rs_nbytesread s + length b,
                        rs_md5 := (rs_md5 s)\<lparr>fed := fed (rs_md5 s) @ b\<rparr>,
                        rs_reading := False,
                        out_notes := out_notes s @ [Data b]\<rparr>"
    using r assms(1) by (simp add: pump_def streaming_def Let_def)
  have ok: "rs_source ?s1 \<noteq> None" "\<not> thrown ?s1"
    using r assms(1) by (simp_all add: s1 streaming_def core_def)
  have "step dg (EvReadable (Some b)) s = pump_all n None ?s1"
    using n assms(1) by (simp add: step_def read_result_def streaming_def core_def)
  then show ?thesis
    using pump_nothing_again [OF ok, of n] by (simp add: s1 advanced_def metadata_def)
qed

lemma chunk_advanced:
  assumes "streaming s" "\<not> rs_aborted s" "\<not> rs_reading s"
  shows "streaming (run dg s (chunk_events c)) \<and>
         advanced s [Data (snd c)] (run dg s (chunk_events c)) \<and>
         metadata (run dg s (chunk_events c)) = metadata s \<and>
         \<not> rs_reading (run dg s (chunk_events c))"
proof (cases c)
  case (Pair late b)
  show ?thesis
  proof (cases late)
    case False
    then show ?thesis
      using Pair read_chunk_advanced [OF assms, of b dg] read_streaming [OF assms(1), of dg]
      by simp
  next
    case True
    let ?s1 = "step dg (EvRead None) s"
    note a1 = read_nothing_advanced [OF assms(1,2), of dg]
    have st1: "streaming ?s1" using read_streaming [OF assms(1)] .
    have ab1: "\<not> rs_aborted ?s1" using a1 assms(2) by (simp add: advanced_def)
    have w1: "cb_readable ?s1 > 0" using read_nothing_waits [OF assms] .
    note a2 = readable_chunk_advanced [OF st1 ab1 w1, of b dg]
    have st2: "streaming (step dg (EvReadable (Some b)) ?s1)"
      using readable_streaming [OF st1] .
    have "advanced s ([] @ [Data b]) (step dg (EvReadable (Some b)) ?s1)"
      using a1 a2 by (intro advanced_trans [of s _ ?s1]) simp_all
    then show ?thesis using Pair True st2 a1 a2 by simp
  qed
qed

lemma chunks_advanced:
  assumes "streaming s" "\<not> rs_aborted s" "\<not> rs_reading s"
  shows "streaming (run dg s (concat (map chunk_events cs))) \<and>
         advanced s (map (\<lambda>c. Data (snd c)) cs) (run dg s (concat (map chunk_events cs))) \<and>
         metadata (run dg s (concat (map chunk_events cs))) = metadata s \<and>
         \<not> rs_reading (run dg s (concat (map chunk_events cs)))"
  using assms
proof (induction cs arbitrary: s)
  case Nil
  then show ?case by (simp add: advanced_refl)
next
  case (Cons c cs)
  let ?s1 = "run dg s (chunk_events c)"
  note a = chunk_advanced [OF Cons.prems, of dg c]
  have st: "streaming ?s1" using a by simp
  have ab: "\<not> rs_aborted ?s1" using a Cons.prems(2) by (simp add: advanced_def)
  have rd: "\<not> rs_reading ?s1" using a by simp
  note ih = Cons.IH [OF st ab rd]
  have "advanced s ([Data (snd c)] @ map (\<lambda>c. Data (snd c)) cs)
          (run dg ?s1 (concat (map chunk_events cs)))"
    using a ih by (intro advanced_trans [of s _ ?s1]) simp_all
  then show ?case using ih a by (simp add: run_append)
qed

text \<open>The body of a segment: the response is accepted and its chunks are delivered.\<close>

lemma first_chunk_advanced:
  assumes "awaiting_result s" "\<not> rs_aborted s"
    "rs_exp_etag s = None \<or> rs_exp_etag s = hdr_etag res"
  shows "streaming
           (run dg s (if late then [EvResult (Inr res) None, EvReadable (Some b)]
                      else [EvResult (Inr res) (Some b)])) \<and>
         advanced s [Data b]
           (run dg s (if late then [EvResult (Inr res) None, EvReadable (Some b)]
                      else [EvResult (Inr res) (Some b)])) \<and>
         metadata
           (run dg s (if late then [EvResult (Inr res) None, EvReadable (Some b)]
                      else [EvResult (Inr res) (Some b)])) = expected s res \<and>
         \<not> rs_reading
           (run dg s (if late then [EvResult (Inr res) None, EvReadable (Some b)]
                      else [EvResult (Inr res) (Some b)]))"
proof (cases late)
  case False
  then show ?thesis
    using result_advanced [OF assms(1,3), of "Some b" dg]
      result_streaming [OF assms(1,3), of dg "Some b"]
    by simp
next
  case True
  let ?s1 = "step dg (EvResult (Inr res) None) s"
  note a1 = result_advanced [OF assms(1,3), of None dg]
  have st1: "streaming ?s1" using result_streaming [OF assms(1,3)] .
  have ab1: "\<not> rs_aborted ?s1" using a1 assms(2) by (simp add: advanced_def)
  have w1: "cb_readable ?s1 > 0" using result_waits [OF assms(1,3)] .
  note a2 = readable_chunk_advanced [OF st1 ab1 w1, of b dg]
  have st2: "streaming (step dg (EvReadable (Some b)) ?s1)"
    using readable_streaming [OF st1] .
  have "advanced s ([] @ [Data b]) (step dg (EvReadable (Some b)) ?s1)"
    using a1 a2 by (intro advanced_trans [of s _ ?s1]) simp_all
  then show ?thesis using True st2 a1 a2 by simp
qed

lemma segment_body_advanced:
  assumes "awaiting_result s" "\<not> rs_aborted s"
    "rs_exp_etag s = None \<or> rs_exp_etag s = hdr_etag res"
  shows "streaming (run dg s (segment_body (res, cs))) \<and>
         advanced s (map (\<lambda>c. Data (snd c)) cs) (run dg s (segment_body (res, cs))) \<and>
         metadata (run dg s (segment_body (res, cs))) = expected s res"
proof (cases cs)
  case Nil
  then show ?thesis
    using result_advanced [OF assms(1,3), of None dg] result_streaming [OF assms(1,3), of dg None]
    by simp
next
  case (Cons c cs')
  obtain late b where c: "c = (late, b)" by (cases c)
  let ?first = "if late then [EvResult (Inr res) None, EvReadable (Some b)]
                else [EvResult (Inr res) (Some b)]"
  let ?s1 = "run dg s ?first"
  let ?s2 = "run dg ?s1 (concat (map chunk_events cs'))"
  let ?s3 = "step dg (EvRead None) ?s2"
  note a1 = first_chunk_advanced [OF assms, of dg late b]
  have st1: "streaming ?s1" using a1 by simp
  have ab1: "\<not> rs_aborted ?s1" using a1 assms(2) by (simp add: advanced_def)
  have rd1: "\<not> rs_reading ?s1" using a1 by simp
  note a2 = chunks_advanced [OF st1 ab1 rd1, of dg cs']
  have ab2: "\<not> rs_aborted ?s2" using a2 ab1 by (simp add: advanced_def)
  have st2: "streaming ?s2" using a2 by simp
  note a3 = read_nothing_advanced [OF st2 ab2, of dg]
  have st3: "streaming ?s3" using read_streaming [OF st2] .
  have "advanced s (([Data b] @ map (\<lambda>c. Data (snd c)) cs') @ []) ?s3"
    using a1 a2 a3 by (intro advanced_trans [of s _ ?s2] advanced_trans [of s _ ?s1]) simp_all
  moreover have "run dg s (segment_body (res, cs)) = ?s3"
    using Cons c by (simp only: segment_body.simps run_append) simp
  ultimately show ?thesis using Cons c st3 a1 a2 a3 by simp
qed

lemma payload_Data: "concat (map payload (map (\<lambda>c. Data (snd c)) cs)) = concat (map snd cs)"
  by (induction cs) simp_all

lemma advanced_delivered:
  "advanced s ns s' \<Longrightarrow> delivered s' = delivered s @ concat (map payload ns)"
  by (simp add: advanced_def delivered_def)

lemma streaming_nbytesread: "streaming s \<Longrightarrow> rs_nbytesread s = length (delivered s)"
  by (simp add: streaming_def core_def)

lemma connecting_nbytesread: "connecting s \<Longrightarrow> rs_nbytesread s = length (delivered s)"
  by (simp add: connecting_def awaiting_def core_def)

lemma connecting_no_length_no_tag: "connecting s \<Longrightarrow> rs_exp_len s = None \<Longrightarrow> rs_exp_etag s = None"
  by (simp add: connecting_def awaiting_def core_def)

text \<open>A segment up to the end of its response.\<close>

lemma segment_before_end:
  assumes "connecting s" "\<not> rs_aborted s"
    "rs_exp_etag s = None \<or> rs_exp_etag s = hdr_etag res"
  shows "streaming (run dg s (EvGet None req # segment_body (res, cs))) \<and>
         advanced s (map (\<lambda>c. Data (snd c)) cs)
           (run dg s (EvGet None req # segment_body (res, cs))) \<and>
         metadata (run dg s (EvGet None req # segment_body (res, cs))) = expected s res"
proof -
  let ?s1 = "step dg (EvGet None req) s"
  note a1 = get_ok_advanced [OF assms(1,2), of dg req]
  have ar: "awaiting_result ?s1" using get_ok_connecting [OF assms(1,2)] .
  have ab: "\<not> rs_aborted ?s1" using a1 assms(2) by (simp add: advanced_def)
  have m: "metadata ?s1 = metadata s" using a1 by simp
  then have et: "rs_exp_etag ?s1 = None \<or> rs_exp_etag ?s1 = hdr_etag res"
    using assms(3) by (simp add: metadata_def)
  have ex: "expected ?s1 res = expected s res"
    using m by (simp add: expected_def metadata_def)
  note a2 = segment_body_advanced [OF ar ab et, of dg cs]
  have "advanced s ([] @ map (\<lambda>c. Data (snd c)) cs) (run dg ?s1 (segment_body (res, cs)))"
    using a1 a2 by (intro advanced_trans [of s _ ?s1]) simp_all
  then show ?thesis using a2 ex by simp
qed

lemma end_premature_connecting:
  assumes "streaming s" "exp_len_num s > int (rs_nbytesread s)" "\<not> rs_aborted s"
  shows "connecting (step dg EvEnd s) \<and> \<not> rs_aborted (step dg EvEnd s) \<and>
         out_notes (step dg EvEnd s) = out_notes s \<and>
         out_requests (step dg EvEnd s) = out_requests s @ [request_at s] \<and>
         metadata (step dg EvEnd s) = metadata s"
proof -
  have "rs_exp_len s \<noteq> None" using assms(1) by (simp add: streaming_def)
  then have "metadata (step dg EvEnd s) = metadata s" by (rule metadata_step)
  then show ?thesis
    using end_premature_live [OF assms, of dg] end_premature_live_eq [OF assms, of dg] by simp
qed

section \<open>A session served in segments\<close>

lemma resource_of_Cons: "resource_of (sg # segs) = segment_bytes sg @ resource_of segs"
  by (simp add: resource_of_def)

lemma resource_of_Nil: "resource_of [] = []"
  by (simp add: resource_of_def)

lemma payload_Data_comp:
  "concat (map (payload \<circ> (\<lambda>c. Data (snd c))) cs) = concat (map snd cs)"
  by (induction cs) simp_all

lemma request_at_eq:
  "config s' = config s \<Longrightarrow>
   request_at s' = \<lparr>rq_path = rs_path s, rq_retry = rs_retrypolicy s,
                     rq_range = range_header (rs_nbytesread s')\<rparr>"
  by (simp add: config_def request_at_def)

lemma run_segments:
  assumes "connecting s" "\<not> rs_aborted s" "segs \<noteq> []"
    and "expected s (fst (hd segs)) = (Some (int L), M, E)"
    and "\<forall>sg\<in>set segs. E = None \<or> E = hdr_etag (fst sg)"
    and "rs_nbytesread s + length (resource_of segs) = L"
    and "\<forall>k. 0 < k \<and> k < length segs \<longrightarrow>
             rs_nbytesread s + length (resource_of (take k segs)) < L"
    and "M = None \<or> M = Some (dg (delivered s @ resource_of segs))"
  shows "out_notes (run dg s (concat (map segment_events segs))) =
           out_notes s @ map (\<lambda>c. Data (snd c)) (concat (map snd segs)) @ [End] \<and>
         out_requests (run dg s (concat (map segment_events segs))) =
           out_requests s @
             map (\<lambda>n. \<lparr>rq_path = rs_path s, rq_retry = rs_retrypolicy s,
                        rq_range = range_header n\<rparr>)
               (resume_offsets (rs_nbytesread s) segs)"
  using assms
proof (induction segs arbitrary: s)
  case Nil
  then show ?case by simp
next
  case (Cons sg rest)
  obtain res cs where sg: "sg = (res, cs)" by (cases sg)
  let ?s3 = "run dg s (EvGet None 0 # segment_body (res, cs))"
  let ?s4 = "step dg EvEnd ?s3"
  have ex: "expected s res = (Some (int L), M, E)" using Cons.prems(4) sg by simp
  have tag: "E = None \<or> E = hdr_etag res" using Cons.prems(5) sg by auto
  have et: "rs_exp_etag s = None \<or> rs_exp_etag s = hdr_etag res"
  proof (cases "rs_exp_len s")
    case None
    then show ?thesis using connecting_no_length_no_tag [OF Cons.prems(1)] by simp
  next
    case (Some l)
    then show ?thesis using ex tag by (simp add: expected_def metadata_def)
  qed
  note b = segment_before_end [OF Cons.prems(1,2) et, of dg 0 cs]
  have st3: "streaming ?s3" using b by simp
  have ab3: "\<not> rs_aborted ?s3" using b Cons.prems(2) by (simp add: advanced_def)
  have md3: "metadata ?s3 = (Some (int L), M, E)" using b ex by simp
  have notes3: "out_notes ?s3 = out_notes s @ map (\<lambda>c. Data (snd c)) cs"
    using b by (simp add: advanced_def)
  have reqs3: "out_requests ?s3 = out_requests s" using b by (simp add: advanced_def)
  have del3: "delivered ?s3 = delivered s @ segment_bytes sg"
    using b advanced_delivered [of s "map (\<lambda>c. Data (snd c)) cs" ?s3]
    by (simp add: payload_Data_comp segment_bytes_def sg)
  have n3: "rs_nbytesread ?s3 = rs_nbytesread s + length (segment_bytes sg)"
    using streaming_nbytesread [OF st3] connecting_nbytesread [OF Cons.prems(1)] del3 by simp
  have len3: "exp_len_num ?s3 = int L" using md3 by (simp add: metadata_def exp_len_num_def)
  have md5_3: "rs_exp_md5 ?s3 = M" using md3 by (simp add: metadata_def)
  have ev: "concat (map segment_events (sg # rest)) =
            (EvGet None 0 # segment_body (res, cs)) @ EvEnd # concat (map segment_events rest)"
    by (simp add: segment_events_def sg)
  have run: "run dg s (concat (map segment_events (sg # rest))) =
             run dg ?s4 (concat (map segment_events rest))"
    by (simp add: segment_events_def sg run_append)
  show ?case
  proof (cases rest)
    case Nil
    have total: "rs_nbytesread ?s3 = L"
      using n3 Cons.prems(6) Nil by (simp add: resource_of_Cons resource_of_Nil)
    then have c: "\<not> exp_len_num ?s3 > int (rs_nbytesread ?s3)" using len3 by simp
    have "delivered ?s3 = delivered s @ resource_of (sg # rest)"
      using del3 Nil by (simp add: resource_of_Cons resource_of_Nil)
    then have ok: "M = None \<or> M = Some (dg (delivered ?s3))" using Cons.prems(8) by simp
    have "out_notes ?s4 = out_notes ?s3 @ [End]"
      using end_complete_eq [OF st3 c, of dg] md5_3 ok by auto
    moreover have "out_requests ?s4 = out_requests ?s3"
      using end_complete_eq [OF st3 c, of dg] by simp
    ultimately show ?thesis
      unfolding run using Nil notes3 reqs3 by (simp add: sg)
  next
    case (Cons sg' rest')
    have "0 < (1::nat) \<and> 1 < length (sg # rest)" using Cons by simp
    then have "rs_nbytesread s + length (resource_of (take 1 (sg # rest))) < L"
      using Cons.prems(7) by blast
    then have short: "exp_len_num ?s3 > int (rs_nbytesread ?s3)"
      using n3 len3 by (simp add: resource_of_Cons resource_of_Nil)
    note e = end_premature_connecting [OF st3 short ab3, of dg]
    have c4: "connecting ?s4" and ab4: "\<not> rs_aborted ?s4" using e by simp_all
    have md4: "metadata ?s4 = (Some (int L), M, E)" using e md3 by simp
    have notes4: "out_notes ?s4 = out_notes s @ map (\<lambda>c. Data (snd c)) cs"
      using e notes3 by simp
    have cfg3: "config ?s3 = config s" by (rule config_run)
    have cfg4: "config ?s4 = config s" using config_step [of dg EvEnd ?s3] cfg3 by simp
    have reqs4: "out_requests ?s4 =
        out_requests s @ [\<lparr>rq_path = rs_path s, rq_retry = rs_retrypolicy s,
                           rq_range = range_header (rs_nbytesread s + length (segment_bytes sg))\<rparr>]"
      using e reqs3 request_at_eq [OF cfg3] n3 by simp
    have del4: "delivered ?s4 = delivered s @ segment_bytes sg"
      using notes4 del3 notes3 by (simp add: delivered_def)
    have n4: "rs_nbytesread ?s4 = rs_nbytesread s + length (segment_bytes sg)"
      using connecting_nbytesread [OF c4] connecting_nbytesread [OF Cons.prems(1)] del4 by simp
    have ne: "rest \<noteq> []" using Cons by simp
    have ex4: "expected ?s4 (fst (hd rest)) = (Some (int L), M, E)"
      using md4 by (simp add: expected_def metadata_def)
    have tags: "\<forall>sg\<in>set rest. E = None \<or> E = hdr_etag (fst sg)"
      using Cons.prems(5) by auto
    have tot: "rs_nbytesread ?s4 + length (resource_of rest) = L"
      using n4 Cons.prems(6) by (simp add: resource_of_Cons)
    have pre: "\<forall>k. 0 < k \<and> k < length rest \<longrightarrow>
                rs_nbytesread ?s4 + length (resource_of (take k rest)) < L"
    proof (intro allI impI)
      fix k
      assume k: "0 < k \<and> k < length rest"
      then have "0 < Suc k \<and> Suc k < length (sg # rest)" by simp
      then have "rs_nbytesread s + length (resource_of (take (Suc k) (sg # rest))) < L"
        using Cons.prems(7) by blast
      then show "rs_nbytesread ?s4 + length (resource_of (take k rest)) < L"
        using n4 by (simp add: resource_of_Cons)
    qed
    have sum: "M = None \<or> M = Some (dg (delivered ?s4 @ resource_of rest))"
      using Cons.prems(8) del4 by (simp add: resource_of_Cons)
    note ih = Cons.IH [OF c4 ab4 ne ex4 tags tot pre sum]
    have paths: "rs_path ?s4 = rs_path s" "rs_retrypolicy ?s4 = rs_retrypolicy s"
      using cfg4 by (simp_all add: config_def)
    have offs: "resume_offsets (rs_nbytesread s) (sg # rest) =
                (rs_nbytesread s + length (segment_bytes sg)) #
                resume_offsets (rs_nbytesread ?s4) rest"
      using Cons n4 by simp
    show ?thesis
      unfolding run offs using ih notes4 reqs4 paths by (simp add: sg)
  qed
qed

lemma resource_of_chunks: "resource_of segs = concat (map snd (concat (map snd segs)))"
  by (induction segs) (simp_all add: resource_of_def segment_bytes_def)

lemma or_null_cases: "or_null h = None \<or> or_null h = h"
  by (cases h) (simp_all add: or_null_def)

text \<open>
  C1. A resource is served in \<open>N \<ge> 1\<close> segments: the first response declares the
  length of the whole resource and either no checksum or the digest of the resource,
  every response carries the identity tag of the first, and each of the first
  \<open>N - 1\<close> segments ends short of the declared length. Each chunk is there when the
  stream reads, or comes late and is announced by \<^verbatim>\<open>'readable'\<close>. Then the stream
  delivers the chunks of the segments in the order the server sent them and then
  \<open>End\<close>, and nothing else: no error. The bytes delivered are the resource, and the
  requests are one without a range and then one from each offset reached at the end
  of a short segment.
\<close>

theorem interrupted_transfer_is_complete:
  assumes "segs \<noteq> []"
    and "hdr_content_length (fst (hd segs)) = Some (string_of_nat (length (resource_of segs)))"
    and "hdr_content_md5 (fst (hd segs)) = None \<or>
         hdr_content_md5 (fst (hd segs)) = Some (dg (resource_of segs))"
    and "\<forall>sg\<in>set segs. hdr_etag (fst sg) = hdr_etag (fst (hd segs))"
    and "\<forall>k. 0 < k \<and> k < length segs \<longrightarrow>
             length (resource_of (take k segs)) < length (resource_of segs)"
  shows "out_notes (run dg (ReliableHttpStream p pol) (session_events segs)) =
           map (\<lambda>c. Data (snd c)) (concat (map snd segs)) @ [End] \<and>
         delivered (run dg (ReliableHttpStream p pol) (session_events segs)) = resource_of segs \<and>
         out_requests (run dg (ReliableHttpStream p pol) (session_events segs)) =
           map (\<lambda>n. \<lparr>rq_path = p,
                      rq_retry = (case pol of None \<Rightarrow> default_policy | Some q \<Rightarrow> q),
                      rq_range = range_header n\<rparr>)
             (0 # resume_offsets 0 segs)"
proof -
  let ?init = "ReliableHttpStream p pol"
  let ?s = "step dg (EvRead None) ?init"
  let ?L = "length (resource_of segs)"
  let ?M = "or_null (hdr_content_md5 (fst (hd segs)))"
  let ?E = "or_null (hdr_etag (fst (hd segs)))"
  have idle0: "idle ?init" "\<not> rs_aborted ?init"
    by (simp_all add: idle_def core_def ReliableHttpStream_def terminals_def delivered_def)
  have c: "connecting ?s" using read_idle_live [OF idle0] .
  note r = read_idle_eq [OF idle0, of dg None]
  have nts: "out_notes ?s = []" using r by (simp add: ReliableHttpStream_def)
  have reqs: "out_requests ?s =
      [\<lparr>rq_path = p, rq_retry = (case pol of None \<Rightarrow> default_policy | Some q \<Rightarrow> q),
        rq_range = range_header 0\<rparr>]"
    using r by (simp add: ReliableHttpStream_def request_at_def)
  have cfg: "rs_path ?s = p"
      "rs_retrypolicy ?s = (case pol of None \<Rightarrow> default_policy | Some q \<Rightarrow> q)"
    using config_step [of dg "EvRead None" ?init]
    by (simp_all add: config_def ReliableHttpStream_def)
  have ab: "\<not> rs_aborted ?s"
    by (simp add: step_def rs_read_def makeRequest_def ReliableHttpStream_def Let_def)
  have len: "rs_exp_len ?s = None"
    using metadata_rs_read [of None ?init]
    by (simp add: step_def metadata_def ReliableHttpStream_def read_result_def)
  have del: "delivered ?s = []" using nts by (simp add: delivered_def)
  have n0: "rs_nbytesread ?s = 0" using connecting_nbytesread [OF c] del by simp
  have ex: "expected ?s (fst (hd segs)) = (Some (int ?L), ?M, ?E)"
    using len assms(2) by (simp add: expected_def content_length_decimal)
  have tags: "\<forall>sg\<in>set segs. ?E = None \<or> ?E = hdr_etag (fst sg)"
    using assms(4) or_null_cases [of "hdr_etag (fst (hd segs))"] by auto
  have tot: "rs_nbytesread ?s + length (resource_of segs) = ?L" using n0 by simp
  have pre: "\<forall>k. 0 < k \<and> k < length segs \<longrightarrow>
               rs_nbytesread ?s + length (resource_of (take k segs)) < ?L"
    using assms(5) n0 by simp
  have sum: "?M = None \<or> ?M = Some (dg (delivered ?s @ resource_of segs))"
    using assms(3) or_null_cases [of "hdr_content_md5 (fst (hd segs))"] del by auto
  note main = run_segments [where dg = dg and s = ?s and segs = segs and L = ?L and M = ?M
      and E = ?E, OF c ab assms(1) ex tags tot pre sum]
  have run: "run dg ?init (session_events segs) = run dg ?s (concat (map segment_events segs))"
    by (simp add: session_events_def)
  have n: "out_notes (run dg ?init (session_events segs)) =
           map (\<lambda>c. Data (snd c)) (concat (map snd segs)) @ [End]"
    unfolding run using main nts by simp
  have "delivered (run dg ?init (session_events segs)) =
        concat (map snd (concat (map snd segs)))"
    using n by (simp add: delivered_def payload_Data_comp)
  then have d: "delivered (run dg ?init (session_events segs)) = resource_of segs"
    by (simp add: resource_of_chunks)
  have q: "out_requests (run dg ?init (session_events segs)) =
           map (\<lambda>n. \<lparr>rq_path = p,
                      rq_retry = (case pol of None \<Rightarrow> default_policy | Some q \<Rightarrow> q),
                      rq_range = range_header n\<rparr>)
             (0 # resume_offsets 0 segs)"
    unfolding run using main reqs cfg n0 by simp
  show ?thesis using n d q by (rule conjI [OF _ conjI])
qed

theorem interrupted_transfer_is_complete_witness:
  "resource_of demo_segments = ''abcde'' \<and>
   out_notes (run demo_digest (ReliableHttpStream ''/r'' None) (session_events demo_segments)) =
     [Data ''ab'', Data ''c'', Data ''d'', Data ''e'', End] \<and>
   map rq_range
     (out_requests
        (run demo_digest (ReliableHttpStream ''/r'' None) (session_events demo_segments))) =
     [None, Some ''bytes=2-'', Some ''bytes=2-'']"
proof -
  have r: "resource_of demo_segments = ''abcde''"
    by (simp add: resource_of_def segment_bytes_def demo_segments_def)
  have five: "string_of_nat 5 = ''5''" by code_simp
  have h1: "demo_segments \<noteq> []" by (simp add: demo_segments_def)
  have h2: "hdr_content_length (fst (hd demo_segments)) =
            Some (string_of_nat (length (resource_of demo_segments)))"
  proof -
    have "length (resource_of demo_segments) = 5" by (simp add: r)
    then show ?thesis unfolding five by (simp add: five demo_segments_def demo_response_def)
  qed
  have h3: "hdr_content_md5 (fst (hd demo_segments)) = None \<or>
            hdr_content_md5 (fst (hd demo_segments)) =
              Some (demo_digest (resource_of demo_segments))"
    by (simp add: r) (simp add: demo_segments_def demo_response_def demo_digest_def)
  have h4: "\<forall>sg\<in>set demo_segments. hdr_etag (fst sg) = hdr_etag (fst (hd demo_segments))"
    by (simp add: demo_segments_def demo_response_def)
  have h5: "\<forall>k. 0 < k \<and> k < length demo_segments \<longrightarrow>
              length (resource_of (take k demo_segments)) < length (resource_of demo_segments)"
  proof (intro allI impI)
    fix k
    assume "0 < k \<and> k < length demo_segments"
    then have "k = 1 \<or> k = 2" by (auto simp add: demo_segments_def)
    then show "length (resource_of (take k demo_segments)) < length (resource_of demo_segments)"
      by (auto simp add: r) (simp_all add: demo_segments_def resource_of_def segment_bytes_def)
  qed
  have o: "resume_offsets 0 demo_segments = [2, 2]"
    by (simp add: demo_segments_def segment_bytes_def)
  have g: "range_header 0 = None" "range_header 2 = Some ''bytes=2-''"
      "range_header (Suc (Suc 0)) = Some ''bytes=2-''"
    by (simp add: range_header_def) code_simp+
  show ?thesis
    using interrupted_transfer_is_complete [where dg = demo_digest and segs = demo_segments
        and p = "''/r''" and pol = None, OF h1 h2 h3 h4 h5] r o g
    by (simp add: demo_segments_def segment_bytes_def)
qed

section \<open>Abort\<close>

lemma abort_twice: "step dg EvAbort (step dg EvAbort s) = step dg EvAbort s"
  by (simp add: step_def abort_def stopAndCleanUp_def throw_def Let_def)

text \<open>What an aborted stream keeps silent about.\<close>

lemma read_after_abort: "rs_aborted s \<Longrightarrow> step dg (EvRead rd) s = s"
  by (simp add: step_EvRead_noop)

lemma timer_after_abort:
  "rs_aborted s \<Longrightarrow>
   out_notes (step dg EvTimer s) = out_notes s \<and> out_requests (step dg EvTimer s) = out_requests s"
  by (simp add: step_def makeRequest_def throw_def)

lemma get_ok_after_abort:
  "rs_aborted s \<Longrightarrow>
   out_notes (step dg (EvGet None req) s) = out_notes s \<and>
   out_requests (step dg (EvGet None req) s) = out_requests s \<and>
   cb_result (step dg (EvGet None req) s) = cb_result s"
  by (simp add: step_def get_callback_def stopAndCleanUp_def throw_def Let_def)

text \<open>
  C8 at the input on which the source departs from it. A demand signal starts a
  request; the user aborts while the connection is being made (no notification so far,
  and nothing to cancel: \<^verbatim>\<open>rs_request\<close> is still null); then the connection fails and
  the \<^verbatim>\<open>get\<close> callback runs with the error. The callback handles the error before it
  looks at \<^verbatim>\<open>rs_aborted\<close>, and the error is emitted to the consumer after the abort.
  Likewise a response body that becomes readable, or ends complete, after an abort in
  mid-stream still has its data pushed and \<open>End\<close> delivered: \<^verbatim>\<open>pump\<close> and
  \<^verbatim>\<open>responseEnd\<close> do not look at \<^verbatim>\<open>rs_aborted\<close>. A second abort changes nothing.
\<close>

theorem notifications_after_abort:
  "rs_aborted (run dg (ReliableHttpStream p pol) [EvRead rd, EvAbort]) \<and>
   out_notes (run dg (ReliableHttpStream p pol) [EvRead rd, EvAbort]) = [] \<and>
   out_notes (run dg (ReliableHttpStream p pol) [EvRead rd, EvAbort, EvGet (Some e) req]) =
     [Error (Upstream e)] \<and>
   out_notes
     (run dg (ReliableHttpStream p pol)
        [EvRead rd, EvGet None req,
         EvResult (Inr (demo_response 0 None ''3'' ''v1'')) None,
         EvAbort, EvReadable (Some ''abc''), EvEnd]) =
     [Data ''abc'', End] \<and>
   step dg EvAbort (step dg EvAbort s) = step dg EvAbort s"
  by (simp add: abort_twice) (simp add: eval_defs)

section \<open>Early closes without end\<close>

lemma early_close_round:
  assumes "connecting s" "\<not> rs_aborted s" "out_notes s = []"
    "metadata s = (Some 5, None, Some ''v1'')"
  shows "connecting (run dg s closes_early) \<and> \<not> rs_aborted (run dg s closes_early) \<and>
         out_notes (run dg s closes_early) = [] \<and>
         metadata (run dg s closes_early) = (Some 5, None, Some ''v1'')"
proof -
  let ?res = "demo_response 0 None ''5'' ''v1''"
  let ?s3 = "run dg s (EvGet None 0 # segment_body (?res, []))"
  have et: "rs_exp_etag s = None \<or> rs_exp_etag s = hdr_etag ?res"
    using assms(4) by (simp add: metadata_def demo_response_def)
  note b = segment_before_end [OF assms(1,2) et, of dg 0 "[]"]
  have st3: "streaming ?s3" using b by simp
  have ab3: "\<not> rs_aborted ?s3" using b assms(2) by (simp add: advanced_def)
  have md3: "metadata ?s3 = (Some 5, None, Some ''v1'')"
    using b assms(4) by (simp add: expected_def metadata_def)
  have n3: "out_notes ?s3 = []" using b assms(3) by (simp add: advanced_def)
  then have "rs_nbytesread ?s3 = 0"
    using streaming_nbytesread [OF st3] by (simp add: delivered_def)
  then have short: "exp_len_num ?s3 > int (rs_nbytesread ?s3)"
    using md3 by (simp add: metadata_def exp_len_num_def)
  note e = end_premature_connecting [OF st3 short ab3, of dg]
  have "run dg s closes_early = step dg EvEnd ?s3" by (simp add: closes_early_def)
  then show ?thesis using e md3 n3 by simp
qed

text \<open>However many responses are closed early, no terminal notification is delivered.\<close>

lemma early_closes_forever:
  "connecting (run demo_digest after_one_early_close (concat (replicate k closes_early))) \<and>
   \<not> rs_aborted (run demo_digest after_one_early_close (concat (replicate k closes_early))) \<and>
   out_notes (run demo_digest after_one_early_close (concat (replicate k closes_early))) = [] \<and>
   metadata (run demo_digest after_one_early_close (concat (replicate k closes_early))) =
     (Some 5, None, Some ''v1'')"
proof (induction k)
  case 0
  show ?case
    by (simp add: after_one_early_close_def closes_early_def metadata_def phase_defs eval_defs)
next
  case (Suc k)
  have "concat (replicate (Suc k) closes_early) = concat (replicate k closes_early) @ closes_early"
    by (simp add: replicate_append_same [symmetric])
  then show ?case using early_close_round Suc by (simp only: run_append) simp
qed

end
